theory Spec2Isabelle
  imports Complex_Main
begin

section \<open>Paths and file types (index.py, lines 20-21 and 92)\<close>

type_synonym path = string

text \<open>A work item is the tuple \<^verbatim>\<open>Indexer.QUEUE_ITEM\<close>:
  \<^verbatim>\<open>(fullpath: str, relpath: Optional[str], fixups: bool)\<close>.\<close>

type_synonym item = "path \<times> path option \<times> bool"

definition ENTRY_TYPES :: "string list" where
  "ENTRY_TYPES = [''.md'', ''.htm'', ''.html'']"

definition CATEGORY_TYPES :: "string list" where
  "CATEGORY_TYPES = [''.cat'', ''.meta'']"

text \<open>\<^verbatim>\<open>str.rfind\<close> for a single character: the highest index at which the
  character occurs, or -1.\<close>

fun rfind_aux :: "char \<Rightarrow> string \<Rightarrow> nat \<Rightarrow> int \<Rightarrow> int" where
  "rfind_aux c [] i found = found"
| "rfind_aux c (x # xs) i found = rfind_aux c xs (Suc i) (if x = c then int i else found)"

definition rfind :: "string \<Rightarrow> char \<Rightarrow> int" where
  "rfind p c = rfind_aux c p 0 (- 1)"

text \<open>\<^verbatim>\<open>os.path.splitext\<close> of the standard library (the POSIX flavour:
  separator \<^verbatim>\<open>/\<close>, no alternative separator). The extension starts at the last
  dot of the last path component, unless that component has only leading dots
  before it.\<close>

definition splitext :: "path \<Rightarrow> string \<times> string" where
  "splitext p =
     (let sepIndex = rfind p (CHR ''/'');
          dotIndex = rfind p (CHR ''.'')
      in if dotIndex > sepIndex \<and>
            list_ex (\<lambda>ch. ch \<noteq> CHR ''.'')
              (take (nat dotIndex - nat (sepIndex + 1)) (drop (nat (sepIndex + 1)) p))
         then (take (nat dotIndex) p, drop (nat dotIndex) p)
         else (p, []))"

definition is_scannable :: "path \<Rightarrow> bool" where
  "is_scannable fullpath =
     (let ext = snd (splitext fullpath)
      in ext \<in> set ENTRY_TYPES \<or> ext \<in> set CATEGORY_TYPES)"


section \<open>The scan dispatcher (\<^verbatim>\<open>Indexer._scan_file.do_scan\<close>, lines 90-106)\<close>

text \<open>The scanners \<^verbatim>\<open>entry.scan_file\<close> and \<^verbatim>\<open>category.scan_file\<close> are external
  collaborators. A call is recorded with exactly the arguments the call site passes:
  three for the entry scanner (line 97), two for the category scanner (line 101).\<close>

datatype scan_call =
    EntryScan path "path option" bool
  | CategoryScan path "path option"

text \<open>What a scanner invocation can do: return something truthy, return
  \<^verbatim>\<open>False\<close>, return \<^verbatim>\<open>None\<close>, or raise.\<close>

datatype scan_return = Truthy | RetFalse | RetNone | Raised

text \<open>The value of \<^verbatim>\<open>do_scan()\<close>, of type \<^verbatim>\<open>Optional[bool]\<close> up to truthiness.\<close>

datatype scan_result = ResTruthy | ResFalse | ResNone

text \<open>The positional arguments a scanner receives.\<close>

datatype arg = ArgStr string | ArgOptStr "string option" | ArgBool bool

fun call_args :: "scan_call \<Rightarrow> arg list" where
  "call_args (EntryScan fullpath relpath fixups) =
     [ArgStr fullpath, ArgOptStr relpath, ArgBool fixups]"
| "call_args (CategoryScan fullpath relpath) =
     [ArgStr fullpath, ArgOptStr relpath]"

text \<open>The routing part of \<^verbatim>\<open>do_scan\<close>: which scanner is invoked, with which
  arguments; \<open>None\<close> is the \<^verbatim>\<open>return None\<close> of line 103.\<close>

definition route :: "item \<Rightarrow> scan_call option" where
  "route it =
     (case it of (fullpath, relpath, fixups) \<Rightarrow>
        (let ext = snd (splitext fullpath)
         in if ext \<in> set ENTRY_TYPES then Some (EntryScan fullpath relpath fixups)
            else if ext \<in> set CATEGORY_TYPES then Some (CategoryScan fullpath relpath)
            else None))"

text \<open>The \<^verbatim>\<open>try ... except Exception: return False\<close> around the scanner call.\<close>

fun normalize :: "scan_return \<Rightarrow> scan_result" where
  "normalize Truthy = ResTruthy"
| "normalize RetFalse = ResFalse"
| "normalize RetNone = ResNone"
| "normalize Raised = ResFalse"

definition do_scan :: "(scan_call \<Rightarrow> scan_return) \<Rightarrow> item \<Rightarrow> scan_result" where
  "do_scan scanner it =
     (case route it of
        None \<Rightarrow> ResNone
      | Some c \<Rightarrow> normalize (scanner c))"


section \<open>The fingerprint table and \<^verbatim>\<open>set_fingerprint\<close> (lines 161-178)\<close>

text \<open>Every table that \<^verbatim>\<open>prune_missing\<close> is applied to has a \<^verbatim>\<open>file_path\<close>
  column; \<^verbatim>\<open>model.FileFingerprint\<close> adds the fingerprint and the modification
  time. The time stamp is kept as an opaque number.\<close>

record row =
  file_path :: path

record fingerprint_row = row +
  fingerprint :: string
  file_mtime :: int

datatype exn = FileNotFoundError | OSError | CacheIndexError

text \<open>The outcome of a file-system call (\<^verbatim>\<open>utils.file_fingerprint\<close>,
  \<^verbatim>\<open>os.stat\<close>): a value, \<^verbatim>\<open>FileNotFoundError\<close>, or another \<^verbatim>\<open>OSError\<close>
  such as \<^verbatim>\<open>PermissionError\<close>.\<close>

datatype 'a io = Ok 'a | NotFound | Failed

text \<open>Modelled from the spec: the entity table \<^verbatim>\<open>model.FileFingerprint\<close>
  (model.py is not among the sources). The spec gives the record as
  \<^verbatim>\<open>{ file_path: string (unique key), fingerprint, file_mtime }\<close>: a table of rows
  in which \<^verbatim>\<open>file_path\<close> is a unique key, so that creating a second row for a
  path that has one is refused by the store.\<close>

definition tbl_get :: "('a row_scheme) list \<Rightarrow> path \<Rightarrow> ('a row_scheme) option" where
  "tbl_get t p = find (\<lambda>r. file_path r = p) t"

definition tbl_create :: "fingerprint_row list \<Rightarrow> fingerprint_row \<Rightarrow> exn + fingerprint_row list" where
  "tbl_create t r =
     (if list_ex (\<lambda>r'. file_path r' = file_path r) t then Inl CacheIndexError
      else Inr (t @ [r]))"

definition tbl_set :: "fingerprint_row list \<Rightarrow> path \<Rightarrow> string \<Rightarrow> int \<Rightarrow> fingerprint_row list" where
  "tbl_set t p fp mt =
     map (\<lambda>r. if file_path r = p then r\<lparr>fingerprint := fp, file_mtime := mt\<rparr> else r) t"

definition tbl_delete :: "('a row_scheme) list \<Rightarrow> path \<Rightarrow> ('a row_scheme) list" where
  "tbl_delete t p = filter (\<lambda>r. file_path r \<noteq> p) t"

text \<open>\<^verbatim>\<open>fingerprint or utils.file_fingerprint(fullpath)\<close>: an absent or empty
  argument is falsy, and the fingerprint function is called.\<close>

definition fingerprint_or :: "string option \<Rightarrow> string io \<Rightarrow> string io" where
  "fingerprint_or given computed =
     (case given of
        None \<Rightarrow> computed
      | Some f \<Rightarrow> if f = [] then computed else Ok f)"

text \<open>\<^verbatim>\<open>set_fingerprint(fullpath, fingerprint=None)\<close>. \<open>ffp\<close> is the outcome of
  \<^verbatim>\<open>utils.file_fingerprint(fullpath)\<close> and \<open>st\<close> the outcome of
  \<^verbatim>\<open>os.stat(fullpath).st_mtime\<close>, both at the moment of the call. \<open>Inl\<close> is an
  exception that leaves the function (the session is rolled back, the table is as
  before); \<^verbatim>\<open>FileNotFoundError\<close> is handled inside by deleting the path's rows.
  The arguments of \<^verbatim>\<open>record.set\<close> and of the constructor are evaluated first, so
  \<^verbatim>\<open>os.stat\<close> is called before either of them.\<close>

definition set_fingerprint ::
  "string io \<Rightarrow> int io \<Rightarrow> fingerprint_row list \<Rightarrow> path \<Rightarrow> string option
     \<Rightarrow> exn + fingerprint_row list" where
  "set_fingerprint ffp st t fullpath given =
     (case fingerprint_or given ffp of
        NotFound \<Rightarrow> Inr (tbl_delete t fullpath)
      | Failed \<Rightarrow> Inl OSError
      | Ok fp \<Rightarrow>
          (case tbl_get t fullpath of
             Some record \<Rightarrow>
               if fingerprint record \<noteq> fp then
                 (case st of
                    NotFound \<Rightarrow> Inr (tbl_delete t fullpath)
                  | Failed \<Rightarrow> Inl OSError
                  | Ok mt \<Rightarrow> Inr (tbl_set t fullpath fp mt))
               else
                 (case st of
                    NotFound \<Rightarrow> Inr (tbl_delete t fullpath)
                  | Failed \<Rightarrow> Inl OSError
                  | Ok mt \<Rightarrow>
                      tbl_create t \<lparr>file_path = fullpath, fingerprint = fp, file_mtime = mt\<rparr>)
           | None \<Rightarrow>
               (case st of
                  NotFound \<Rightarrow> Inr (tbl_delete t fullpath)
                | Failed \<Rightarrow> Inl OSError
                | Ok mt \<Rightarrow>
                    tbl_create t \<lparr>file_path = fullpath, fingerprint = fp, file_mtime = mt\<rparr>)))"

definition get_last_fingerprint :: "fingerprint_row list \<Rightarrow> path \<Rightarrow> string option" where
  "get_last_fingerprint t fullpath =
     (case tbl_get t fullpath of
        Some record \<Rightarrow> Some (fingerprint record)
      | None \<Rightarrow> None)"


section \<open>\<^verbatim>\<open>prune_missing\<close> (lines 230-257)\<close>

text \<open>The read phase \<^verbatim>\<open>fill\<close>: the paths of the rows whose file is not there.
  \<open>isfile1\<close> is \<^verbatim>\<open>os.path.isfile\<close> as the read phase sees it.\<close>

definition fill :: "(path \<Rightarrow> bool) \<Rightarrow> ('a row_scheme) list \<Rightarrow> path list" where
  "fill isfile1 t = map file_path (filter (\<lambda>item. \<not> isfile1 (file_path item)) t)"

text \<open>The delete phase \<^verbatim>\<open>kill(path)\<close>: look the row up again, test the file again,
  delete the row. \<open>isfile2\<close> is \<^verbatim>\<open>os.path.isfile\<close> at that later moment.\<close>

definition kill :: "(path \<Rightarrow> bool) \<Rightarrow> path \<Rightarrow> ('a row_scheme) list \<Rightarrow> ('a row_scheme) list" where
  "kill isfile2 p t =
     (case tbl_get t p of
        Some item \<Rightarrow> if \<not> isfile2 (file_path item) then remove1 item t else t
      | None \<Rightarrow> t)"

definition prune_missing ::
  "(path \<Rightarrow> bool) \<Rightarrow> (path \<Rightarrow> bool) \<Rightarrow> ('a row_scheme) list \<Rightarrow> ('a row_scheme) list" where
  "prune_missing isfile1 isfile2 t = fold (kill isfile2) (fill isfile1 t) t"


section \<open>Introspection (\<^verbatim>\<open>queue_length\<close>, \<^verbatim>\<open>in_progress\<close>, lines 131-143)\<close>

text \<open>Python objects, as far as their truth value goes: \<^verbatim>\<open>None\<close> is false, an
  integer is true unless it is zero, a function object is always true.\<close>

datatype 'f pyobj = PyNone | PyInt int | PyFunction 'f

fun truth :: "'f pyobj \<Rightarrow> bool" where
  "truth PyNone = False"
| "truth (PyInt n) = (n \<noteq> 0)"
| "truth (PyFunction f) = True"

text \<open>\<^verbatim>\<open>queue_length()\<close>: the argument is the value of \<^verbatim>\<open>_work_queue()\<close>, the
  pool's queue (here its size) or \<^verbatim>\<open>None\<close> when the pool has no such attribute.
  A queue object is always truthy.\<close>

definition queue_length :: "nat option \<Rightarrow> int pyobj" where
  "queue_length work_queue =
     (case work_queue of
        Some qsize \<Rightarrow> PyInt (int qsize)
      | None \<Rightarrow> PyNone)"

text \<open>\<^verbatim>\<open>in_progress()\<close> is \<^verbatim>\<open>bool(queue_length)\<close>: the function is not called.\<close>

definition in_progress :: "nat option \<Rightarrow> bool" where
  "in_progress work_queue = truth (PyFunction queue_length)"


section \<open>The scheduler (\<^verbatim>\<open>class Indexer\<close>, lines 24-115)\<close>

text \<open>Tasks submitted to the single-worker thread pool (\<^verbatim>\<open>max_workers=1\<close>):
  \<^verbatim>\<open>time.sleep\<close> (line 60), \<^verbatim>\<open>self._scan_pending\<close> (line 63, with the number of
  the future that \<^verbatim>\<open>submit\<close> returns) and \<^verbatim>\<open>self._schedule\<close> (line 82).\<close>

datatype task = SleepTask | ScanPendingTask nat | ScheduleTask

text \<open>The one worker thread is idle between tasks, or inside \<^verbatim>\<open>_scan_pending\<close>
  after the swap of lines 70-72: the future it is running, the items of the
  snapshot that the \<^verbatim>\<open>for\<close> loop has not reached yet, and the truth value of the
  snapshot (\<^verbatim>\<open>if items\<close>, line 81).\<close>

datatype worker = Idle | Draining nat "item list" bool

text \<open>The indexer object with its thread pool. \<open>pending\<close>, \<open>running\<close> and
  \<open>wait_time\<close> are the fields of \<^verbatim>\<open>__init__\<close>; \<open>done_futures\<close> says which futures
  answer \<^verbatim>\<open>done()\<close> with true; \<open>work_queue\<close> is the pool's FIFO queue. The
  fingerprint table is the durable state the worker writes. Three logs observe
  a run: the calls of \<^verbatim>\<open>_scan_file\<close>, the scanner invocations with what they did,
  and the exceptions logged by line 85.\<close>

record indexer =
  pending :: "item set"
  running :: "nat option"
  wait_time :: real
  done_futures :: "nat set"
  next_future :: nat
  work_queue :: "task list"
  worker :: worker
  store :: "fingerprint_row list"
  attempts :: "item list"
  scans :: "(scan_call \<times> scan_return) list"
  failures :: "exn list"

text \<open>What the outside world does at the \<open>n\<close>-th call of \<^verbatim>\<open>_scan_file\<close>: the
  scanner's behaviour, \<^verbatim>\<open>utils.file_fingerprint\<close> and \<^verbatim>\<open>os.stat\<close>. Each call of
  \<^verbatim>\<open>_scan_file\<close> uses each of them at most once, so any behaviour over time is
  such a family.\<close>

record env =
  scanner :: "nat \<Rightarrow> scan_call \<Rightarrow> scan_return"
  file_fingerprint :: "nat \<Rightarrow> path \<Rightarrow> string io"
  os_stat :: "nat \<Rightarrow> path \<Rightarrow> int io"

definition init :: "real \<Rightarrow> fingerprint_row list \<Rightarrow> indexer" where
  "init wait t =
     \<lparr>pending = {}, running = None, wait_time = wait, done_futures = {},
      next_future = 0, work_queue = [], worker = Idle, store = t,
      attempts = [], scans = [], failures = []\<rparr>"

text \<open>\<^verbatim>\<open>with self._lock: self._pending.add(...)\<close> (lines 50-51).\<close>

definition add_pending :: "item \<Rightarrow> indexer \<Rightarrow> indexer" where
  "add_pending it s = s\<lparr>pending := insert it (pending s)\<rparr>"

definition submit :: "task \<Rightarrow> indexer \<Rightarrow> indexer" where
  "submit t s = s\<lparr>work_queue := work_queue s @ [t]\<rparr>"

text \<open>\<^verbatim>\<open>not self._running or self._running.done()\<close> (line 56).\<close>

definition handle_free :: "indexer \<Rightarrow> bool" where
  "handle_free s =
     (case running s of
        None \<Rightarrow> True
      | Some f \<Rightarrow> f \<in> done_futures s)"

text \<open>\<^verbatim>\<open>_schedule(wait)\<close> (lines 54-65), one critical section.\<close>

definition schedule_priv :: "real \<Rightarrow> indexer \<Rightarrow> indexer" where
  "schedule_priv wait s =
     (if handle_free s then
        (let s1 = (if wait \<noteq> 0 then submit SleepTask s else s);
             f = next_future s1;
             s2 = submit (ScanPendingTask f) s1
         in s2\<lparr>running := Some f, next_future := Suc f\<rparr>)
      else s)"

text \<open>\<^verbatim>\<open>scan_file(fullpath, relpath, fixups)\<close> (lines 38-52), when nothing runs
  between its two critical sections.\<close>

definition scan_file :: "item \<Rightarrow> indexer \<Rightarrow> indexer" where
  "scan_file it s = schedule_priv (wait_time s) (add_pending it s)"

text \<open>\<^verbatim>\<open>_scan_file(fullpath, relpath, fixups)\<close> (lines 87-115). The result is the
  new state and the exception that leaves the function, if any: only
  \<^verbatim>\<open>set_fingerprint\<close> can raise past it, the scanner cannot.\<close>

definition scan_file_priv :: "env \<Rightarrow> item \<Rightarrow> indexer \<Rightarrow> indexer \<times> exn option" where
  "scan_file_priv e it s =
     (case it of (fullpath, relpath, fixups) \<Rightarrow>
        (let n = length (attempts s);
             s0 = s\<lparr>attempts := attempts s @ [it]\<rparr>;
             result = do_scan (scanner e n) it;
             s1 = (case route it of
                     None \<Rightarrow> s0
                   | Some c \<Rightarrow> s0\<lparr>scans := scans s0 @ [(c, scanner e n c)]\<rparr>)
         in if result = ResFalse \<and> \<not> fixups then
              (scan_file (fullpath, relpath, True) s1, None)
            else
              (case set_fingerprint (file_fingerprint e n fullpath) (os_stat e n fullpath)
                      (store s1) fullpath None of
                 Inl x \<Rightarrow> (s1, Some x)
               | Inr t \<Rightarrow> (s1\<lparr>store := t\<rparr>, None))))"

text \<open>The atomic actions of a run. Other threads call \<^verbatim>\<open>scan_file\<close>, whose two
  critical sections are the events \<open>Add\<close> and \<open>Schedule\<close>. The worker takes the
  next task off the queue (\<open>Next\<close>; for \<^verbatim>\<open>_scan_pending\<close> this is the swap, and
  the event carries the order in which the \<^verbatim>\<open>for\<close> loop will meet the items of
  the set), handles one item of the snapshot (\<open>Item\<close>), or leaves the loop
  (\<open>Finish\<close>, lines 81-82 and the completion of the future). Handling an
  item is one step: the call of \<^verbatim>\<open>scan_file\<close> inside \<^verbatim>\<open>_scan_file\<close> is not
  interleaved with other threads. Nothing is lost by that: while a pass runs its
  future is the handle and is not done, so the \<^verbatim>\<open>_schedule\<close> of that call does
  nothing (lemma \<open>scan_file_busy\<close>), and adding to the pending set commutes
  with what other threads add. Likewise the submission of line 82 and the
  completion of the future are one step, since a \<^verbatim>\<open>_schedule\<close> of another thread
  in between would find the handle not done and do nothing.\<close>

datatype event = Add item | Schedule | Next "item list" | Item | Finish

fun worker_event :: "event \<Rightarrow> bool" where
  "worker_event (Add it) = False"
| "worker_event Schedule = False"
| "worker_event (Next xs) = True"
| "worker_event Item = True"
| "worker_event Finish = True"

text \<open>One step; \<open>None\<close> when the event cannot happen in the state.\<close>

definition next_task :: "item list \<Rightarrow> indexer \<Rightarrow> indexer option" where
  "next_task xs s =
     (case worker s of
        Draining f rest ne \<Rightarrow> None
      | Idle \<Rightarrow>
          (case work_queue s of
             [] \<Rightarrow> None
           | t # q \<Rightarrow>
               (case t of
                  SleepTask \<Rightarrow> Some (s\<lparr>work_queue := q\<rparr>)
                | ScheduleTask \<Rightarrow> Some (schedule_priv 0 (s\<lparr>work_queue := q\<rparr>))
                | ScanPendingTask f \<Rightarrow>
                    if set xs = pending s \<and> distinct xs then
                      Some (s\<lparr>work_queue := q, pending := {},
                              worker := Draining f xs (xs \<noteq> [])\<rparr>)
                    else None)))"

definition next_item :: "env \<Rightarrow> indexer \<Rightarrow> indexer option" where
  "next_item e s =
     (case worker s of
        Idle \<Rightarrow> None
      | Draining f rest ne \<Rightarrow>
          (case rest of
             [] \<Rightarrow> None
           | it # rest' \<Rightarrow>
               (case scan_file_priv e it s of
                  (s', None) \<Rightarrow> Some (s'\<lparr>worker := Draining f rest' ne\<rparr>)
                | (s', Some x) \<Rightarrow>
                    Some (s'\<lparr>worker := Idle, done_futures := insert f (done_futures s'),
                             failures := failures s' @ [x]\<rparr>))))"

definition finish :: "indexer \<Rightarrow> indexer option" where
  "finish s =
     (case worker s of
        Idle \<Rightarrow> None
      | Draining f rest ne \<Rightarrow>
          (case rest of
             [] \<Rightarrow>
               (let s1 = (if ne then submit ScheduleTask s else s)
                in Some (s1\<lparr>worker := Idle, done_futures := insert f (done_futures s1)\<rparr>))
           | it # rest' \<Rightarrow> None))"

fun step :: "env \<Rightarrow> event \<Rightarrow> indexer \<Rightarrow> indexer option" where
  "step e (Add it) s = Some (add_pending it s)"
| "step e Schedule s = Some (schedule_priv (wait_time s) s)"
| "step e (Next xs) s = next_task xs s"
| "step e Item s = next_item e s"
| "step e Finish s = finish s"

fun run :: "env \<Rightarrow> event list \<Rightarrow> indexer \<Rightarrow> indexer option" where
  "run e [] s = Some s"
| "run e (ev # evs) s =
     (case step e ev s of
        None \<Rightarrow> None
      | Some s' \<Rightarrow> run e evs s')"

text \<open>The \<^verbatim>\<open>_scan_pending\<close> futures that are not done: those waiting in the
  queue and the one the worker is inside.\<close>

fun scan_tasks :: "task list \<Rightarrow> nat list" where
  "scan_tasks [] = []"
| "scan_tasks (ScanPendingTask f # q) = f # scan_tasks q"
| "scan_tasks (SleepTask # q) = scan_tasks q"
| "scan_tasks (ScheduleTask # q) = scan_tasks q"

definition in_flight :: "indexer \<Rightarrow> nat list" where
  "in_flight s =
     (case worker s of
        Idle \<Rightarrow> scan_tasks (work_queue s)
      | Draining f rest ne \<Rightarrow> f # scan_tasks (work_queue s))"


section \<open>Auxiliary notions for the statements\<close>

text \<open>A scanner call that was handed all three fields of the item.\<close>

definition receives_all_three :: "item \<Rightarrow> scan_call \<Rightarrow> bool" where
  "receives_all_three it c =
     (case it of (fullpath, relpath, fixups) \<Rightarrow>
        call_args c = [ArgStr fullpath, ArgOptStr relpath, ArgBool fixups])"

text \<open>The scanner log after \<^verbatim>\<open>_scan_file\<close> has handled the item.\<close>

definition scans_after :: "env \<Rightarrow> item \<Rightarrow> indexer \<Rightarrow> (scan_call \<times> scan_return) list" where
  "scans_after e it s =
     (case route it of
        None \<Rightarrow> scans s
      | Some c \<Rightarrow> scans s @ [(c, scanner e (length (attempts s)) c)])"

text \<open>A well-behaved outside world, for concrete runs: every scan succeeds, every
  file is there.\<close>

definition env0 :: env where
  "env0 = \<lparr>scanner = (\<lambda>n c. Truthy), file_fingerprint = (\<lambda>n p. Ok ''f1''),
           os_stat = (\<lambda>n p. Ok 1)\<rparr>"

text \<open>The invariant of the scheduler: future numbers are fresh; while the worker
  is inside \<^verbatim>\<open>_scan_pending\<close> the queue is empty and the handle is that unfinished
  future; while it is idle, either no \<^verbatim>\<open>_scan_pending\<close> task is queued and the
  handle is free, or exactly one is queued, as the last task, and it is the
  handle.\<close>

definition sched_inv :: "indexer \<Rightarrow> bool" where
  "sched_inv s =
     ((\<forall>f \<in> done_futures s. f < next_future s) \<and>
      (\<forall>f. running s = Some f \<longrightarrow> f < next_future s) \<and>
      (\<forall>f rest ne. worker s = Draining f rest ne \<longrightarrow>
         work_queue s = [] \<and> running s = Some f \<and> f \<notin> done_futures s) \<and>
      (worker s = Idle \<longrightarrow>
         (scan_tasks (work_queue s) = [] \<longrightarrow> handle_free s) \<and>
         (\<forall>f fs. scan_tasks (work_queue s) = f # fs \<longrightarrow>
            fs = [] \<and> running s = Some f \<and> f \<notin> done_futures s \<and>
            last (work_queue s) = ScanPendingTask f)))"


text \<open>What one \<open>Item\<close> step does to a state in which the handle is taken
  (lemma \<open>next_item_effect\<close> below): \<^verbatim>\<open>scan_file\<close> then only adds to the pending set.\<close>

definition item_effect :: "env \<Rightarrow> indexer \<Rightarrow> nat \<Rightarrow> item \<Rightarrow> item list \<Rightarrow> bool \<Rightarrow> indexer" where
  "item_effect e s f it rest ne =
     (case it of (p, r, fx) \<Rightarrow>
        (let n = length (attempts s);
             s1 = s\<lparr>attempts := attempts s @ [it], scans := scans_after e it s\<rparr>
         in if do_scan (scanner e n) it = ResFalse \<and> \<not> fx then
              s1\<lparr>pending := insert (p, r, True) (pending s), worker := Draining f rest ne\<rparr>
            else
              (case set_fingerprint (file_fingerprint e n p) (os_stat e n p) (store s) p None of
                 Inl x \<Rightarrow> s1\<lparr>worker := Idle, done_futures := insert f (done_futures s),
                             failures := failures s @ [x]\<rparr>
               | Inr t \<Rightarrow> s1\<lparr>store := t, worker := Draining f rest ne\<rparr>)))"


text \<open>Two items for concrete runs.\<close>

definition item_a :: item where "item_a = (''posts/a.md'', Some ''a.md'', False)"
definition item_b :: item where "item_b = (''posts/b.md'', Some ''b.md'', False)"


text \<open>A file in a directory that cannot be read: the scanner raises, and so do
  \<^verbatim>\<open>utils.file_fingerprint\<close> and \<^verbatim>\<open>os.stat\<close> (\<^verbatim>\<open>PermissionError\<close>).\<close>

definition item_l :: item where "item_l = (''locked/a.md'', Some ''a.md'', True)"

definition env1 :: env where
  "env1 = \<lparr>scanner = (\<lambda>n c. Raised),
           file_fingerprint = (\<lambda>n p. if p = ''locked/a.md'' then Failed else Ok ''f1''),
           os_stat = (\<lambda>n p. if p = ''locked/a.md'' then Failed else Ok 1)\<rparr>"



section \<open>The dispatcher, the fingerprint table and pruning\<close>

lemma splitext_md: "splitext ''posts/a.md'' = (''posts/a'', ''.md'')"
  by (simp add: splitext_def rfind_def)

lemma splitext_dotfile: "splitext ''.bashrc'' = (''.bashrc'', [])"
  by (simp add: splitext_def rfind_def)

lemma splitext_dot_in_directory: "splitext ''a.b/c'' = (''a.b/c'', [])"
  by (simp add: splitext_def rfind_def)

lemma tbl_get_Some:
  "tbl_get t p = Some r \<Longrightarrow> r \<in> set t \<and> file_path r = p"
  unfolding tbl_get_def by (auto simp: find_Some_iff)

lemma tbl_get_None:
  "tbl_get t p = None \<longleftrightarrow> (\<forall>r\<in>set t. file_path r \<noteq> p)"
  unfolding tbl_get_def by (auto simp: find_None_iff)

text \<open>The two branches of line 168 for a path that has a row and a file: a
  different fingerprint updates the row in place; an equal fingerprint falls into
  the \<^verbatim>\<open>else\<close> branch, which constructs a second row for the path.\<close>

lemma set_fingerprint_changed:
  assumes "tbl_get t p = Some r" "fingerprint r \<noteq> fp"
  shows "set_fingerprint (Ok fp) (Ok mt) t p None = Inr (tbl_set t p fp mt)"
  using assms by (auto simp: set_fingerprint_def fingerprint_or_def)

lemma set_fingerprint_unchanged:
  assumes "tbl_get t p = Some r" "fingerprint r = fp"
  shows "set_fingerprint (Ok fp) (Ok mt) t p None = Inl CacheIndexError"
  using assms tbl_get_Some[OF assms(1)]
  by (auto simp: set_fingerprint_def fingerprint_or_def tbl_create_def list_ex_iff)

text \<open>C5. \<^verbatim>\<open>set_fingerprint\<close> on a path whose row already holds the very
  fingerprint of the file does not leave the store alone: the condition of line
  168 is false, the \<^verbatim>\<open>else\<close> branch creates a row for a path that has one, and
  the store refuses it. The call ends with an exception instead of doing
  nothing.\<close>

theorem set_fingerprint_unchanged_raises:
  "set_fingerprint (Ok ''f1'') (Ok 1)
     [\<lparr>file_path = ''posts/a.md'', fingerprint = ''f1'', file_mtime = 1\<rparr>]
     ''posts/a.md'' None = Inl CacheIndexError"
  by (simp add: set_fingerprint_def fingerprint_or_def tbl_get_def tbl_create_def)

text \<open>C6 as stated fails: an item with an extension that is neither an entry nor a
  category type makes \<^verbatim>\<open>do_scan\<close> return \<^verbatim>\<open>None\<close>, and the \<^verbatim>\<open>else\<close> branch of
  line 112 still calls \<^verbatim>\<open>set_fingerprint\<close>, which here creates a row.\<close>

theorem not_applicable_fingerprinted_counterexample:
  "do_scan (scanner env0 0) (''notes.txt'', None, False) = ResNone \<and>
   store (init 0 []) = [] \<and>
   store (fst (scan_file_priv env0 (''notes.txt'', None, False) (init 0 [])))
     = [\<lparr>file_path = ''notes.txt'', fingerprint = ''f1'', file_mtime = 1\<rparr>]"
  by (simp add: do_scan_def route_def splitext_def rfind_def ENTRY_TYPES_def CATEGORY_TYPES_def
        scan_file_priv_def init_def env0_def set_fingerprint_def fingerprint_or_def
        tbl_get_def tbl_create_def)

text \<open>C6, amended: when the dispatcher returns \<^verbatim>\<open>None\<close> for an item, nothing is
  re-enqueued and the fingerprint table afterwards is what
  \<^verbatim>\<open>set_fingerprint(fullpath)\<close> makes of it (unchanged only if that call
  raises).\<close>

theorem not_applicable_runs_set_fingerprint:
  assumes "route (p, r, fx) = None"
  shows "do_scan sc (p, r, fx) = ResNone \<and>
         store (fst (scan_file_priv e (p, r, fx) s))
           = (case set_fingerprint (file_fingerprint e (length (attempts s)) p)
                     (os_stat e (length (attempts s)) p) (store s) p None of
                Inl x \<Rightarrow> store s
              | Inr t \<Rightarrow> t) \<and>
         pending (fst (scan_file_priv e (p, r, fx) s)) = pending s"
  using assms by (simp add: do_scan_def scan_file_priv_def Let_def split: sum.splits)

theorem not_applicable_runs_set_fingerprint_witness:
  "route (''notes.txt'', None, False) = None \<and>
   do_scan (scanner env0 0) (''notes.txt'', None, False) = ResNone \<and>
   store (fst (scan_file_priv env0 (''notes.txt'', None, False) (init 0 [])))
     = [\<lparr>file_path = ''notes.txt'', fingerprint = ''f1'', file_mtime = 1\<rparr>]"
proof -
  have r: "route (''notes.txt'', None, False) = None"
    by (simp add: route_def splitext_def rfind_def ENTRY_TYPES_def CATEGORY_TYPES_def)
  from not_applicable_runs_set_fingerprint[OF r, of "scanner env0 0" env0 "init 0 []"] r
  show ?thesis
    by (simp add: init_def env0_def set_fingerprint_def fingerprint_or_def
        tbl_get_def tbl_create_def)
qed

lemma kill_filter:
  assumes "distinct (map file_path t)"
  shows "kill i2 p t = filter (\<lambda>r. file_path r \<noteq> p \<or> i2 p) t"
proof (cases "tbl_get t p")
  case None
  then have "\<forall>r\<in>set t. file_path r \<noteq> p" by (simp add: tbl_get_None)
  then have "filter (\<lambda>r. file_path r \<noteq> p \<or> i2 p) t = t" by (simp add: filter_id_conv)
  with None show ?thesis by (simp add: kill_def)
next
  case (Some r)
  then have r: "r \<in> set t" "file_path r = p" using tbl_get_Some by blast+
  from assms have d: "distinct t" by (rule distinct_map [THEN iffD1, THEN conjunct1])
  have eq: "\<And>r'. r' \<in> set t \<Longrightarrow> file_path r' = p \<longleftrightarrow> r' = r"
    using assms r by (auto simp: distinct_map inj_on_def)
  show ?thesis
  proof (cases "i2 p")
    case True
    then show ?thesis using Some r by (simp add: kill_def)
  next
    case False
    have "remove1 r t = filter (\<lambda>r'. r' \<noteq> r) t"
      using d by (simp add: distinct_remove1_removeAll removeAll_filter_not_eq) metis
    also have "\<dots> = filter (\<lambda>r'. file_path r' \<noteq> p \<or> i2 p) t"
      using False eq by (intro filter_cong) auto
    finally show ?thesis using Some False r by (simp add: kill_def)
  qed
qed

lemma fold_kill:
  "distinct (map file_path t) \<Longrightarrow>
   fold (kill i2) ps t = filter (\<lambda>r. file_path r \<notin> set ps \<or> i2 (file_path r)) t"
proof (induction ps arbitrary: t)
  case Nil
  then show ?case by simp
next
  case (Cons p ps)
  have d: "distinct (map file_path (filter (\<lambda>r. file_path r \<noteq> p \<or> i2 p) t))"
    using Cons.prems by (simp add: distinct_map_filter)
  show ?case
    using Cons.IH[OF d] Cons.prems
    by (auto simp: kill_filter intro!: filter_cong)
qed

lemma prune_missing_filter:
  assumes "distinct (map file_path t)"
  shows "prune_missing i1 i2 t = filter (\<lambda>r. i1 (file_path r) \<or> i2 (file_path r)) t"
  unfolding prune_missing_def fold_kill[OF assms]
  by (rule filter_cong) (auto simp: fill_def)

text \<open>C7. On a table with \<^verbatim>\<open>file_path\<close> as unique key: with a file system that
  does not change during the call, \<^verbatim>\<open>prune_missing\<close> keeps exactly the rows whose
  file exists, in their order. With a file system that changes between the read
  phase and the delete phase, a row whose path was collected in the read phase is
  deleted if and only if the second test in \<^verbatim>\<open>kill\<close> still finds no file, so a
  file that is back by then keeps its row; a row that was not collected is not
  tested again and stays.\<close>

theorem prune_missing_exact:
  assumes "distinct (map file_path t)"
  shows "prune_missing isfile isfile t = filter (\<lambda>r. isfile (file_path r)) t \<and>
         prune_missing isfile1 isfile2 t
           = filter (\<lambda>r. isfile1 (file_path r) \<or> isfile2 (file_path r)) t \<and>
         (\<forall>r\<in>set t. \<not> isfile1 (file_path r) \<longrightarrow>
            (r \<notin> set (prune_missing isfile1 isfile2 t) \<longleftrightarrow> \<not> isfile2 (file_path r)))"
  using assms by (auto simp: prune_missing_filter)

theorem prune_missing_exact_witness:
  "distinct (map file_path [\<lparr>file_path = ''a.md''\<rparr>, \<lparr>file_path = ''b.md''\<rparr>, \<lparr>file_path = ''c.md''\<rparr>]) \<and>
   prune_missing (\<lambda>p. p = ''c.md'') (\<lambda>p. p \<noteq> ''a.md'')
     [\<lparr>file_path = ''a.md''\<rparr>, \<lparr>file_path = ''b.md''\<rparr>, \<lparr>file_path = ''c.md''\<rparr>]
   = [\<lparr>file_path = ''b.md''\<rparr>, \<lparr>file_path = ''c.md''\<rparr>]"
  using prune_missing_exact[of "[\<lparr>file_path = ''a.md''\<rparr>, \<lparr>file_path = ''b.md''\<rparr>, \<lparr>file_path = ''c.md''\<rparr>]"
      "\<lambda>p. p = ''c.md''" "\<lambda>p. p = ''c.md''" "\<lambda>p. p \<noteq> ''a.md''"]
  by simp

text \<open>C9 as stated fails for the category types: the call of line 101 passes the
  full path and the relative path only, so the category scanner never sees the
  fixup flag.\<close>

theorem category_scanner_two_args_counterexample:
  "route (''news/index.cat'', Some ''index.cat'', True)
     = Some (CategoryScan ''news/index.cat'' (Some ''index.cat'')) \<and>
   \<not> receives_all_three (''news/index.cat'', Some ''index.cat'', True)
       (CategoryScan ''news/index.cat'' (Some ''index.cat''))"
  by (simp add: route_def splitext_def rfind_def ENTRY_TYPES_def CATEGORY_TYPES_def
        receives_all_three_def)

text \<open>C9, amended: an item routed to the entry scanner is passed with all three
  fields (full path, relative path, fixup flag); an item routed to the category
  scanner is passed with the full path and the relative path, without the fixup
  flag.\<close>

theorem scanner_arguments:
  assumes "route (fullpath, relpath, fixups) = Some c"
  shows "(snd (splitext fullpath) \<in> set ENTRY_TYPES \<longrightarrow>
            call_args c = [ArgStr fullpath, ArgOptStr relpath, ArgBool fixups]) \<and>
         (snd (splitext fullpath) \<notin> set ENTRY_TYPES \<longrightarrow>
            snd (splitext fullpath) \<in> set CATEGORY_TYPES \<and>
            call_args c = [ArgStr fullpath, ArgOptStr relpath])"
  using assms by (auto simp: route_def Let_def split: if_splits)

theorem scanner_arguments_witness:
  "route (''posts/a.md'', Some ''a.md'', True)
     = Some (EntryScan ''posts/a.md'' (Some ''a.md'') True) \<and>
   snd (splitext ''posts/a.md'') \<in> set ENTRY_TYPES \<and>
   call_args (EntryScan ''posts/a.md'' (Some ''a.md'') True)
     = [ArgStr ''posts/a.md'', ArgOptStr (Some ''a.md''), ArgBool True] \<and>
   route (''news/index.cat'', Some ''index.cat'', True)
     = Some (CategoryScan ''news/index.cat'' (Some ''index.cat'')) \<and>
   snd (splitext ''news/index.cat'') \<notin> set ENTRY_TYPES \<and>
   call_args (CategoryScan ''news/index.cat'' (Some ''index.cat''))
     = [ArgStr ''news/index.cat'', ArgOptStr (Some ''index.cat'')]"
proof -
  have r: "route (''posts/a.md'', Some ''a.md'', True)
      = Some (EntryScan ''posts/a.md'' (Some ''a.md'') True)"
    by (simp add: route_def splitext_def rfind_def ENTRY_TYPES_def)
  have r': "route (''news/index.cat'', Some ''index.cat'', True)
      = Some (CategoryScan ''news/index.cat'' (Some ''index.cat''))"
    by (simp add: route_def splitext_def rfind_def ENTRY_TYPES_def CATEGORY_TYPES_def)
  have e: "snd (splitext ''posts/a.md'') \<in> set ENTRY_TYPES"
    by (simp add: splitext_def rfind_def ENTRY_TYPES_def)
  have e': "snd (splitext ''news/index.cat'') \<notin> set ENTRY_TYPES"
    by (simp add: splitext_def rfind_def ENTRY_TYPES_def)
  from scanner_arguments[OF r] scanner_arguments[OF r'] r r' e e' show ?thesis
    by simp
qed

text \<open>C10. \<^verbatim>\<open>in_progress()\<close> is true whatever the work queue is: absent, empty or
  not. It is the truth value of the function object; the value the function
  would return is falsy for an absent and for an empty queue.\<close>

theorem in_progress_always_true:
  "in_progress wq \<and> in_progress None \<and> in_progress (Some 0)
   \<and> \<not> truth (queue_length None) \<and> \<not> truth (queue_length (Some 0))"
  by (simp add: in_progress_def queue_length_def)


section \<open>The scheduler: invariant and drain passes\<close>

lemma handle_free_iff: "handle_free s = (\<forall>f. running s = Some f \<longrightarrow> f \<in> done_futures s)"
  by (simp add: handle_free_def split: option.splits)

lemma scan_tasks_append [simp]: "scan_tasks (q @ q') = scan_tasks q @ scan_tasks q'"
  by (induction q rule: scan_tasks.induct) simp_all

lemma scan_tasks_mem: "ScanPendingTask f \<in> set q \<Longrightarrow> f \<in> set (scan_tasks q)"
  by (induction q rule: scan_tasks.induct) auto

lemma inv_init: "sched_inv (init w t)"
  by (simp add: sched_inv_def init_def handle_free_iff)

lemma inv_add: "sched_inv s \<Longrightarrow> sched_inv (add_pending it s)"
  by (simp add: sched_inv_def add_pending_def handle_free_iff)

lemma schedule_busy: "\<not> handle_free s \<Longrightarrow> schedule_priv w s = s"
  by (simp add: schedule_priv_def)

lemma inv_schedule: "sched_inv s \<Longrightarrow> sched_inv (schedule_priv w s)"
proof (cases "handle_free s")
  case False
  assume "sched_inv s"
  with False show ?thesis by (simp add: schedule_busy)
next
  case True
  assume i: "sched_inv s"
  from True i have w: "worker s = Idle"
    by (cases "worker s") (auto simp: sched_inv_def handle_free_iff)
  from True i w have st: "scan_tasks (work_queue s) = []"
    by (cases "scan_tasks (work_queue s)") (auto simp: sched_inv_def handle_free_iff)
  from i have fresh: "next_future s \<notin> done_futures s"
    by (auto simp: sched_inv_def)
  from i have lt: "\<forall>f\<in>done_futures s. f < Suc (next_future s)"
    by (auto simp: sched_inv_def less_Suc_eq)
  show ?thesis
    using True w st fresh lt
    by (simp add: schedule_priv_def sched_inv_def submit_def Let_def)
qed



lemma inv_dequeue_plain:
  assumes i: "sched_inv s" and w: "worker s = Idle" and q: "work_queue s = t # q"
    and t: "t = SleepTask \<or> t = ScheduleTask"
  shows "sched_inv (s\<lparr>work_queue := q\<rparr>)"
proof -
  have st: "scan_tasks (work_queue s) = scan_tasks q" using q t by auto
  have "q \<noteq> [] \<Longrightarrow> last (work_queue s) = last q" using q by simp
  moreover have "scan_tasks q \<noteq> [] \<Longrightarrow> q \<noteq> []" by auto
  ultimately show ?thesis
    using i w st by (auto simp: sched_inv_def handle_free_iff)
qed

lemma inv_next:
  assumes i: "sched_inv s" and n: "next_task xs s = Some s'"
  shows "sched_inv s'"
proof -
  from n have w: "worker s = Idle"
    by (cases "worker s") (simp_all add: next_task_def)
  from n w obtain t q where q: "work_queue s = t # q"
    by (cases "work_queue s") (simp_all add: next_task_def)
  show ?thesis
  proof (cases t)
    case SleepTask
    with n w q have "s' = s\<lparr>work_queue := q\<rparr>" by (simp add: next_task_def)
    with inv_dequeue_plain[OF i w q] SleepTask show ?thesis by simp
  next
    case ScheduleTask
    with n w q have "s' = schedule_priv 0 (s\<lparr>work_queue := q\<rparr>)" by (simp add: next_task_def)
    with inv_dequeue_plain[OF i w q] ScheduleTask show ?thesis by (simp add: inv_schedule)
  next
    case (ScanPendingTask f)
    with n w q have s': "s' = s\<lparr>work_queue := q, pending := {}, worker := Draining f xs (xs \<noteq> [])\<rparr>"
      by (simp add: next_task_def split: if_splits)
    from i w q ScanPendingTask have a: "scan_tasks q = []" "running s = Some f"
      "f \<notin> done_futures s" "last (t # q) = ScanPendingTask f"
      by (auto simp: sched_inv_def)
    have "q = []"
    proof (rule ccontr)
      assume "q \<noteq> []"
      with a(4) have "ScanPendingTask f \<in> set q" using last_in_set[of q] by auto
      then have "f \<in> set (scan_tasks q)" by (rule scan_tasks_mem)
      with a(1) show False by simp
    qed
    with i a s' show ?thesis by (auto simp: sched_inv_def)
  qed
qed

lemma inv_finish:
  assumes i: "sched_inv s" and n: "finish s = Some s'"
  shows "sched_inv s'"
proof -
  from n obtain f ne where w: "worker s = Draining f [] ne"
    by (cases "worker s") (auto simp: finish_def split: list.splits)
  with n have s': "s' = (if ne then submit ScheduleTask s else s)
      \<lparr>worker := Idle, done_futures := insert f (done_futures (if ne then submit ScheduleTask s else s))\<rparr>"
    by (simp add: finish_def Let_def)
  from i w have "work_queue s = []" "running s = Some f" "f < next_future s"
    by (auto simp: sched_inv_def)
  with i s' show ?thesis
    by (auto simp: sched_inv_def submit_def handle_free_iff)
qed

lemma scan_file_busy:
  "\<not> handle_free s \<Longrightarrow> scan_file it s = s\<lparr>pending := insert it (pending s)\<rparr>"
proof -
  assume "\<not> handle_free s"
  then have "\<not> handle_free (add_pending it s)"
    by (simp add: handle_free_iff add_pending_def)
  then show ?thesis
    by (simp add: scan_file_def schedule_busy) (simp add: add_pending_def)
qed

lemma scan_file_priv_busy:
  assumes b: "\<not> handle_free s"
  shows "scan_file_priv e (p, r, fx) s =
     (if do_scan (scanner e (length (attempts s))) (p, r, fx) = ResFalse \<and> \<not> fx then
        (s\<lparr>attempts := attempts s @ [(p, r, fx)], scans := scans_after e (p, r, fx) s,
           pending := insert (p, r, True) (pending s)\<rparr>, None)
      else
        (case set_fingerprint (file_fingerprint e (length (attempts s)) p)
                (os_stat e (length (attempts s)) p) (store s) p None of
           Inl x \<Rightarrow> (s\<lparr>attempts := attempts s @ [(p, r, fx)],
                         scans := scans_after e (p, r, fx) s\<rparr>, Some x)
         | Inr t \<Rightarrow> (s\<lparr>attempts := attempts s @ [(p, r, fx)],
                         scans := scans_after e (p, r, fx) s, store := t\<rparr>, None)))"
proof -
  let ?n = "length (attempts s)"
  let ?s0 = "s\<lparr>attempts := attempts s @ [(p, r, fx)]\<rparr>"
  let ?s1 = "case route (p, r, fx) of None \<Rightarrow> ?s0
             | Some c \<Rightarrow> ?s0\<lparr>scans := scans ?s0 @ [(c, scanner e ?n c)]\<rparr>"
  have s1: "?s1 = s\<lparr>attempts := attempts s @ [(p, r, fx)], scans := scans_after e (p, r, fx) s\<rparr>"
    by (cases "route (p, r, fx)") (simp_all add: scans_after_def)
  have nb: "\<not> handle_free ?s1"
    unfolding s1 using b by (simp add: handle_free_iff)
  have unf: "scan_file_priv e (p, r, fx) s =
     (if do_scan (scanner e ?n) (p, r, fx) = ResFalse \<and> \<not> fx then
        (scan_file (p, r, True) ?s1, None)
      else
        (case set_fingerprint (file_fingerprint e ?n p) (os_stat e ?n p) (store ?s1) p None of
           Inl x \<Rightarrow> (?s1, Some x)
         | Inr t \<Rightarrow> (?s1\<lparr>store := t\<rparr>, None)))"
    by (simp add: scan_file_priv_def Let_def)
  have st: "store ?s1 = store s" unfolding s1 by simp
  show ?thesis
  proof (cases "do_scan (scanner e ?n) (p, r, fx) = ResFalse \<and> \<not> fx")
    case True
    have "scan_file_priv e (p, r, fx) s = (scan_file (p, r, True) ?s1, None)"
      unfolding unf by (rule if_P[OF True])
    also have "\<dots> = (?s1\<lparr>pending := insert (p, r, True) (pending ?s1)\<rparr>, None)"
      by (simp only: scan_file_busy[OF nb])
    also have "\<dots> = (s\<lparr>attempts := attempts s @ [(p, r, fx)], scans := scans_after e (p, r, fx) s,
           pending := insert (p, r, True) (pending s)\<rparr>, None)"
      unfolding s1 by simp
    finally show ?thesis by (simp only: if_P[OF True])
  next
    case False
    have "scan_file_priv e (p, r, fx) s =
        (case set_fingerprint (file_fingerprint e ?n p) (os_stat e ?n p) (store ?s1) p None of
           Inl x \<Rightarrow> (?s1, Some x)
         | Inr t \<Rightarrow> (?s1\<lparr>store := t\<rparr>, None))"
      unfolding unf by (rule if_not_P[OF False])
    also have "\<dots> = (case set_fingerprint (file_fingerprint e ?n p) (os_stat e ?n p) (store s) p None of
           Inl x \<Rightarrow> (s\<lparr>attempts := attempts s @ [(p, r, fx)],
                         scans := scans_after e (p, r, fx) s\<rparr>, Some x)
         | Inr t \<Rightarrow> (s\<lparr>attempts := attempts s @ [(p, r, fx)],
                         scans := scans_after e (p, r, fx) s, store := t\<rparr>, None))"
      unfolding s1 by simp
    finally show ?thesis by (simp only: if_not_P[OF False])
  qed
qed

lemma draining_busy:
  "sched_inv s \<Longrightarrow> worker s = Draining f rest ne \<Longrightarrow> \<not> handle_free s"
  by (auto simp: sched_inv_def handle_free_iff)

lemma inv_irrelevant:
  "sched_inv s \<Longrightarrow> sched_inv (s\<lparr>attempts := a, scans := b, pending := c, store := d\<rparr>)"
  by (simp add: sched_inv_def handle_free_iff)

lemma inv_advance:
  assumes "sched_inv s" "worker s = Draining f xs ne"
  shows "sched_inv (s\<lparr>worker := Draining f ys ne'\<rparr>)"
  using assms by (simp add: sched_inv_def)

lemma inv_abort:
  assumes "sched_inv s" "worker s = Draining f xs ne"
  shows "sched_inv (s\<lparr>worker := Idle, done_futures := insert f (done_futures s), failures := fl\<rparr>)"
proof -
  from assms have "work_queue s = []" "running s = Some f" "f < next_future s"
    by (auto simp: sched_inv_def)
  with assms(1) show ?thesis
    by (simp add: sched_inv_def handle_free_iff)
qed

lemma next_item_effect:
  assumes i: "sched_inv s" and w: "worker s = Draining f (it # rest) ne"
  shows "next_item e s = Some (item_effect e s f it rest ne)"
proof -
  obtain p r fx where it: "it = (p, r, fx)" by (cases it) auto
  have b: "\<not> handle_free s" by (rule draining_busy[OF i w])
  note sp = scan_file_priv_busy[OF b, of e p r fx]
  let ?n = "length (attempts s)"
  have ni: "next_item e s = (case scan_file_priv e (p, r, fx) s of
                  (s', None) \<Rightarrow> Some (s'\<lparr>worker := Draining f rest ne\<rparr>)
                | (s', Some x) \<Rightarrow>
                    Some (s'\<lparr>worker := Idle, done_futures := insert f (done_futures s'),
                             failures := failures s' @ [x]\<rparr>))"
    by (simp add: next_item_def w it)
  show ?thesis
  proof (cases "do_scan (scanner e ?n) (p, r, fx) = ResFalse \<and> \<not> fx")
    case True
    have v: "scan_file_priv e (p, r, fx) s = (s\<lparr>attempts := attempts s @ [(p, r, fx)],
          scans := scans_after e (p, r, fx) s,
          pending := insert (p, r, True) (pending s)\<rparr>, None)"
      by (simp only: sp if_P[OF True])
    have ie: "item_effect e s f (p, r, fx) rest ne = s\<lparr>attempts := attempts s @ [(p, r, fx)],
          scans := scans_after e (p, r, fx) s,
          pending := insert (p, r, True) (pending s), worker := Draining f rest ne\<rparr>"
      unfolding item_effect_def Let_def prod.case by (simp only: if_P[OF True])
    show ?thesis unfolding ni v it ie by simp
  next
    case False
    show ?thesis
    proof (cases "set_fingerprint (file_fingerprint e ?n p) (os_stat e ?n p) (store s) p None")
      case (Inl x)
      have v: "scan_file_priv e (p, r, fx) s = (s\<lparr>attempts := attempts s @ [(p, r, fx)],
          scans := scans_after e (p, r, fx) s\<rparr>, Some x)"
        by (simp only: sp if_not_P[OF False] Inl sum.case)
      have ie: "item_effect e s f (p, r, fx) rest ne = s\<lparr>attempts := attempts s @ [(p, r, fx)],
          scans := scans_after e (p, r, fx) s, worker := Idle,
          done_futures := insert f (done_futures s), failures := failures s @ [x]\<rparr>"
        unfolding item_effect_def Let_def prod.case by (simp only: if_not_P[OF False] Inl sum.case)
      show ?thesis unfolding ni v it ie by simp
    next
      case (Inr t)
      have v: "scan_file_priv e (p, r, fx) s = (s\<lparr>attempts := attempts s @ [(p, r, fx)],
          scans := scans_after e (p, r, fx) s, store := t\<rparr>, None)"
        by (simp only: sp if_not_P[OF False] Inr sum.case)
      have ie: "item_effect e s f (p, r, fx) rest ne = s\<lparr>attempts := attempts s @ [(p, r, fx)],
          scans := scans_after e (p, r, fx) s, store := t, worker := Draining f rest ne\<rparr>"
        unfolding item_effect_def Let_def prod.case by (simp only: if_not_P[OF False] Inr sum.case)
      show ?thesis unfolding ni v it ie by simp
    qed
  qed
qed


lemma item_effect_cases:
  obtains
    (retry) p r where "it = (p, r, False)"
      "do_scan (scanner e (length (attempts s))) it = ResFalse"
      "item_effect e s f it rest ne = s\<lparr>attempts := attempts s @ [it],
          scans := scans_after e it s,
          pending := insert (p, r, True) (pending s), worker := Draining f rest ne\<rparr>"
  | (raised) p r fx x where "it = (p, r, fx)"
      "\<not> (do_scan (scanner e (length (attempts s))) it = ResFalse \<and> \<not> fx)"
      "set_fingerprint (file_fingerprint e (length (attempts s)) p)
         (os_stat e (length (attempts s)) p) (store s) p None = Inl x"
      "item_effect e s f it rest ne = s\<lparr>attempts := attempts s @ [it],
          scans := scans_after e it s, worker := Idle,
          done_futures := insert f (done_futures s), failures := failures s @ [x]\<rparr>"
  | (stored) p r fx t where "it = (p, r, fx)"
      "\<not> (do_scan (scanner e (length (attempts s))) it = ResFalse \<and> \<not> fx)"
      "set_fingerprint (file_fingerprint e (length (attempts s)) p)
         (os_stat e (length (attempts s)) p) (store s) p None = Inr t"
      "item_effect e s f it rest ne = s\<lparr>attempts := attempts s @ [it],
          scans := scans_after e it s, store := t, worker := Draining f rest ne\<rparr>"
proof -
  obtain p r fx where it: "it = (p, r, fx)" by (cases it) auto
  let ?n = "length (attempts s)"
  show thesis
  proof (cases "do_scan (scanner e ?n) it = ResFalse \<and> \<not> fx")
    case True
    then have fx: "fx = False" by simp
    have "item_effect e s f it rest ne = s\<lparr>attempts := attempts s @ [it],
          scans := scans_after e it s,
          pending := insert (p, r, True) (pending s), worker := Draining f rest ne\<rparr>"
      unfolding item_effect_def Let_def it prod.case
      by (simp only: if_P[OF True[unfolded it]])
    with True it fx show thesis by (intro retry[of p r]) simp_all
  next
    case False
    show thesis
    proof (cases "set_fingerprint (file_fingerprint e ?n p) (os_stat e ?n p) (store s) p None")
      case (Inl x)
      have "item_effect e s f it rest ne = s\<lparr>attempts := attempts s @ [it],
          scans := scans_after e it s, worker := Idle,
          done_futures := insert f (done_futures s), failures := failures s @ [x]\<rparr>"
        unfolding item_effect_def Let_def it prod.case
        by (simp only: if_not_P[OF False[unfolded it]] Inl sum.case)
      with False it Inl show thesis by (intro raised[of p r fx x])
    next
      case (Inr t)
      have "item_effect e s f it rest ne = s\<lparr>attempts := attempts s @ [it],
          scans := scans_after e it s, store := t, worker := Draining f rest ne\<rparr>"
        unfolding item_effect_def Let_def it prod.case
        by (simp only: if_not_P[OF False[unfolded it]] Inr sum.case)
      with False it Inr show thesis by (intro stored[of p r fx t])
    qed
  qed
qed

lemma item_effect_facts:
  fixes e :: env
  assumes i: "sched_inv s" and w: "worker s = Draining f (it # rest) ne"
  defines "s' \<equiv> item_effect e s f it rest ne"
  shows "sched_inv s'"
    and "attempts s' = attempts s @ [it]"
    and "scans s' = scans_after e it s"
    and "work_queue s' = []"
    and "pending s \<subseteq> pending s'"
    and "pending s' \<subseteq> insert (fst it, fst (snd it), True) (pending s)"
    and "worker s' = Draining f rest ne \<and> failures s' = failures s
         \<or> worker s' = Idle \<and> f \<in> done_futures s' \<and> (\<exists>x. failures s' = failures s @ [x])"
proof -
  from i w have q: "work_queue s = []" by (auto simp: sched_inv_def)
  have a: "\<And>a b c d. sched_inv (s\<lparr>attempts := a, scans := b, pending := c, store := d\<rparr>)"
    by (rule inv_irrelevant[OF i])
  have wa: "\<And>a b c d. worker (s\<lparr>attempts := a, scans := b, pending := c, store := d\<rparr>)
      = Draining f (it # rest) ne" using w by simp
  show "sched_inv s'"
  proof (cases rule: item_effect_cases[of it e s f rest ne])
    case (retry p r)
    have "sched_inv (s\<lparr>attempts := attempts s @ [it], scans := scans_after e it s,
        pending := insert (p, r, True) (pending s), store := store s\<rparr>\<lparr>worker := Draining f rest ne\<rparr>)"
      by (rule inv_advance[OF a wa])
    then show ?thesis unfolding s'_def retry(3) by simp
  next
    case (raised p r fx x)
    have "sched_inv (s\<lparr>attempts := attempts s @ [it], scans := scans_after e it s,
        pending := pending s, store := store s\<rparr>\<lparr>worker := Idle,
        done_futures := insert f (done_futures (s\<lparr>attempts := attempts s @ [it], scans := scans_after e it s,
        pending := pending s, store := store s\<rparr>)), failures := failures s @ [x]\<rparr>)"
      by (rule inv_abort[OF a wa])
    then show ?thesis unfolding s'_def raised(4) by simp
  next
    case (stored p r fx t)
    have "sched_inv (s\<lparr>attempts := attempts s @ [it], scans := scans_after e it s,
        pending := pending s, store := t\<rparr>\<lparr>worker := Draining f rest ne\<rparr>)"
      by (rule inv_advance[OF a wa])
    then show ?thesis unfolding s'_def stored(4) by simp
  qed
  show "attempts s' = attempts s @ [it]"
    unfolding s'_def by (cases rule: item_effect_cases[of it e s f rest ne]) simp_all
  show "scans s' = scans_after e it s"
    unfolding s'_def by (cases rule: item_effect_cases[of it e s f rest ne]) simp_all
  show "work_queue s' = []"
    unfolding s'_def using q by (cases rule: item_effect_cases[of it e s f rest ne]) simp_all
  show "pending s \<subseteq> pending s'"
    unfolding s'_def by (cases rule: item_effect_cases[of it e s f rest ne]) auto
  show "pending s' \<subseteq> insert (fst it, fst (snd it), True) (pending s)"
    unfolding s'_def by (cases rule: item_effect_cases[of it e s f rest ne]) auto
  show "worker s' = Draining f rest ne \<and> failures s' = failures s
         \<or> worker s' = Idle \<and> f \<in> done_futures s' \<and> (\<exists>x. failures s' = failures s @ [x])"
    unfolding s'_def by (cases rule: item_effect_cases[of it e s f rest ne]) simp_all
qed

lemma next_item_SomeD:
  assumes "next_item e s = Some s'"
  obtains f it rest ne where "worker s = Draining f (it # rest) ne"
proof (cases "worker s")
  case Idle
  with assms show ?thesis by (simp add: next_item_def)
next
  case (Draining f xs ne)
  show ?thesis
  proof (cases xs)
    case Nil
    with Draining assms show ?thesis by (simp add: next_item_def)
  next
    case (Cons it rest)
    with Draining that show ?thesis by simp
  qed
qed

lemma inv_item:
  assumes i: "sched_inv s" and n: "next_item e s = Some s'"
  shows "sched_inv s'"
proof -
  from n obtain f it rest ne where w: "worker s = Draining f (it # rest) ne"
    by (rule next_item_SomeD)
  from next_item_effect[OF i w, of e] n item_effect_facts(1)[OF i w, of e] show ?thesis by simp
qed

lemma inv_step:
  assumes "sched_inv s" "step e ev s = Some s'"
  shows "sched_inv s'"
proof (cases ev)
  case (Add it)
  with assms show ?thesis using inv_add[of s it] by simp
next
  case Schedule
  with assms show ?thesis using inv_schedule[of s "wait_time s"] by simp
next
  case (Next xs)
  with assms show ?thesis using inv_next[of s xs s'] by simp
next
  case Item
  with assms show ?thesis using inv_item[of s e s'] by simp
next
  case Finish
  with assms show ?thesis using inv_finish[of s s'] by simp
qed

lemma inv_run: "sched_inv s \<Longrightarrow> run e evs s = Some s' \<Longrightarrow> sched_inv s'"
proof (induction evs arbitrary: s)
  case Nil
  then show ?case by simp
next
  case (Cons ev evs)
  from Cons.prems(2) obtain s1 where s1: "step e ev s = Some s1" "run e evs s1 = Some s'"
    by (cases "step e ev s") simp_all
  from inv_step[OF Cons.prems(1) s1(1)] Cons.IH s1(2) show ?case by blast
qed

lemma in_flight_le_1:
  assumes "sched_inv s"
  shows "length (in_flight s) \<le> 1"
proof (cases "worker s")
  case Idle
  with assms show ?thesis
    by (cases "scan_tasks (work_queue s)") (simp_all add: sched_inv_def in_flight_def)
next
  case (Draining f rest ne)
  with assms have "work_queue s = []" by (simp add: sched_inv_def)
  with Draining show ?thesis by (simp add: in_flight_def)
qed

lemma run_append:
  "run e (a @ b) s = (case run e a s of None \<Rightarrow> None | Some s' \<Rightarrow> run e b s')"
  by (induction a arbitrary: s) (simp_all split: option.splits)

lemma run_snoc:
  "run e (a @ [ev]) s = (case run e a s of None \<Rightarrow> None | Some s' \<Rightarrow> step e ev s')"
  by (simp add: run_append split: option.splits)

lemma next_item_idle: "worker s = Idle \<Longrightarrow> next_item e s = None"
  by (simp add: next_item_def)

lemma run_items:
  assumes "sched_inv s" "worker s = Draining f xs ne" "k \<le> length xs"
    "run e (replicate k Item) s = Some s'"
  shows "sched_inv s' \<and> attempts s' = attempts s @ take k xs \<and>
         pending s \<subseteq> pending s' \<and> work_queue s' = [] \<and>
         (worker s' = Draining f (drop k xs) ne \<and> failures s' = failures s
          \<or> worker s' = Idle \<and> f \<in> done_futures s' \<and> failures s' \<noteq> failures s)"
  using assms
proof (induction k arbitrary: s xs)
  case 0
  then show ?case by (auto simp: sched_inv_def)
next
  case (Suc k)
  from Suc.prems(3) obtain it rest where xs: "xs = it # rest" by (cases xs) auto
  let ?s1 = "item_effect e s f it rest ne"
  have w: "worker s = Draining f (it # rest) ne" using Suc.prems(2) xs by simp
  have st: "next_item e s = Some ?s1" by (rule next_item_effect[OF Suc.prems(1) w])
  with Suc.prems(4) have r: "run e (replicate k Item) ?s1 = Some s'" by simp
  note f = item_effect_facts[OF Suc.prems(1) w, of e]
  from f(7) show ?case
  proof
    assume d: "worker ?s1 = Draining f rest ne \<and> failures ?s1 = failures s"
    have kl: "k \<le> length rest" using Suc.prems(3) xs by simp
    from Suc.IH[OF f(1) conjunct1[OF d] kl r] f(2) f(5) d xs
    show ?thesis by auto
  next
    assume a: "worker ?s1 = Idle \<and> f \<in> done_futures ?s1 \<and> (\<exists>x. failures ?s1 = failures s @ [x])"
    have k0: "k = 0"
    proof (rule ccontr)
      assume "k \<noteq> 0"
      then obtain j where "k = Suc j" by (cases k) auto
      with r a show False by (simp add: next_item_idle)
    qed
    with r have "s' = ?s1" by simp
    with a f xs k0 show ?thesis by auto
  qed
qed

lemma finish_draining:
  assumes "sched_inv s" "worker s = Draining f [] ne"
  shows "finish s = Some (s\<lparr>work_queue := (if ne then [ScheduleTask] else []),
           worker := Idle, done_futures := insert f (done_futures s)\<rparr>)"
proof -
  from assms have "work_queue s = []" by (simp add: sched_inv_def)
  with assms(2) show ?thesis by (simp add: finish_def submit_def)
qed

lemma catch_up:
  assumes "sched_inv s" "worker s = Idle" "work_queue s = [ScheduleTask]"
  shows "next_task ys s = Some (s\<lparr>work_queue := [ScanPendingTask (next_future s)],
           running := Some (next_future s), next_future := Suc (next_future s)\<rparr>)"
proof -
  from assms have "handle_free s" by (simp add: sched_inv_def)
  then have "handle_free (s\<lparr>work_queue := []\<rparr>)" by (simp add: handle_free_iff)
  then show ?thesis using assms(2,3)
    by (simp add: next_task_def schedule_priv_def submit_def Let_def)
qed

lemma swap:
  assumes "worker s = Idle" "work_queue s = ScanPendingTask n # q" "set xs = pending s" "distinct xs"
  shows "next_task xs s = Some (s\<lparr>work_queue := q, pending := {},
           worker := Draining n xs (xs \<noteq> [])\<rparr>)"
  using assms by (simp add: next_task_def)

lemma quiescent_stuck:
  assumes "worker s = Idle" "work_queue s = []" "worker_event ev"
  shows "step e ev s = None"
  using assms by (cases ev) (simp_all add: next_task_def next_item_def finish_def)

text \<open>C2. In every state of every run from the initial state, at most one
  \<^verbatim>\<open>_scan_pending\<close> future is not done (queued or being run); a call of
  \<^verbatim>\<open>_schedule\<close> that finds the handle present and not done changes nothing, so
  a new task is submitted only when the handle is absent or done; and while the
  worker is inside \<^verbatim>\<open>_scan_pending\<close> no second such task is in the queue.\<close>

theorem at_most_one_drain_in_flight:
  assumes "run e evs (init w t) = Some s"
  shows "length (in_flight s) \<le> 1 \<and>
         (\<not> handle_free s \<longrightarrow> schedule_priv w' s = s) \<and>
         (\<forall>f rest ne. worker s = Draining f rest ne \<longrightarrow> scan_tasks (work_queue s) = [])"
proof -
  have i: "sched_inv s" by (rule inv_run[OF inv_init assms])
  from i have "\<forall>f rest ne. worker s = Draining f rest ne \<longrightarrow> scan_tasks (work_queue s) = []"
    by (simp add: sched_inv_def)
  with in_flight_le_1[OF i] show ?thesis by (simp add: schedule_busy)
qed

theorem at_most_one_drain_in_flight_witness:
  "run env0 [Add item_a, Schedule, Next [item_a], Add item_b, Schedule] (init 0 [])
   = Some \<lparr>pending = {item_b}, running = Some 0, wait_time = 0, done_futures = {},
      next_future = Suc 0, work_queue = [], worker = Draining 0 [item_a] True, store = [],
      attempts = [], scans = [], failures = []\<rparr> \<and>
   in_flight \<lparr>pending = {item_b}, running = Some 0, wait_time = 0, done_futures = {},
      next_future = Suc 0, work_queue = [], worker = Draining 0 [item_a] True, store = [],
      attempts = [], scans = [], failures = []\<rparr> = [0]"
proof -
  have r: "run env0 [Add item_a, Schedule, Next [item_a], Add item_b, Schedule] (init 0 [])
   = Some \<lparr>pending = {item_b}, running = Some 0, wait_time = 0, done_futures = {},
      next_future = Suc 0, work_queue = [], worker = Draining 0 [item_a] True, store = [],
      attempts = [], scans = [], failures = []\<rparr>"
    by (simp add: init_def add_pending_def schedule_priv_def handle_free_def submit_def
      next_task_def Let_def)
  from at_most_one_drain_in_flight[OF r, of 0] r show ?thesis
    by (simp add: in_flight_def)
qed

section \<open>Exceptions while handling an item\<close>

lemma route_item_l: "route item_l = Some (EntryScan ''locked/a.md'' (Some ''a.md'') True)"
  by (simp add: item_l_def route_def splitext_def rfind_def ENTRY_TYPES_def)





section \<open>Enqueueing the same triple several times\<close>

lemma pending_schedule [simp]: "pending (schedule_priv w s) = pending s"
  by (simp add: schedule_priv_def submit_def Let_def)

lemma pending_scan_file: "pending (scan_file x s) = insert x (pending s)"
  by (simp add: scan_file_def add_pending_def)

lemma pending_scan_file_funpow:
  "pending ((scan_file x ^^ N) s) = (if N = 0 then pending s else insert x (pending s))"
  by (induction N) (auto simp: pending_scan_file)

lemma inv_scan_file: "sched_inv s \<Longrightarrow> sched_inv (scan_file x s)"
  unfolding scan_file_def by (intro inv_schedule inv_add)

lemma inv_scan_file_funpow: "sched_inv s \<Longrightarrow> sched_inv ((scan_file x ^^ N) s)"
  by (induction N) (simp_all add: inv_scan_file)

lemma next_task_swapD:
  assumes "next_task xs s = Some s'" "worker s' = Draining f ys ne"
  shows "worker s = Idle \<and> set xs = pending s \<and> distinct xs \<and> ys = xs \<and> ne = (xs \<noteq> []) \<and>
         pending s' = {} \<and> attempts s' = attempts s \<and>
         (\<exists>q. work_queue s = ScanPendingTask f # q)"
proof -
  from assms(1) have w: "worker s = Idle"
    by (cases "worker s") (simp_all add: next_task_def)
  from assms(1) w obtain t q where q: "work_queue s = t # q"
    by (cases "work_queue s") (simp_all add: next_task_def)
  show ?thesis
  proof (cases t)
    case SleepTask
    with assms(1) w q have "s' = s\<lparr>work_queue := q\<rparr>" by (simp add: next_task_def)
    then have "worker s' = Idle" using w by simp
    with assms(2) show ?thesis by simp
  next
    case ScheduleTask
    with assms(1) w q have "s' = schedule_priv 0 (s\<lparr>work_queue := q\<rparr>)"
      by (simp add: next_task_def)
    then have "worker s' = Idle" using w by (simp add: schedule_priv_def submit_def Let_def)
    with assms(2) show ?thesis by simp
  next
    case (ScanPendingTask n)
    with assms w q show ?thesis by (auto simp: next_task_def split: if_splits)
  qed
qed

lemma count_list_distinct:
  "distinct xs \<Longrightarrow> count_list xs x = (if x \<in> set xs then 1 else 0)"
  by (induction xs) auto

lemma twice_enqueued_behind_locked:
  "(scan_file item_b ^^ 2) (scan_file item_l (init 0 []))
   = \<lparr>pending = {item_l, item_b}, running = Some 0, wait_time = 0, done_futures = {},
        next_future = Suc 0, work_queue = [ScanPendingTask 0], worker = Idle,
        store = [], attempts = [], scans = [], failures = []\<rparr>"
  by (simp add: numeral_2_eq_2 scan_file_def init_def add_pending_def schedule_priv_def
      handle_free_def submit_def Let_def insert_commute)

text \<open>C4 as stated fails in its last part. The triple is enqueued twice and is in
  the pending set once, and the snapshot lists it once; but the item handled
  before it in the pass raises out of \<^verbatim>\<open>set_fingerprint\<close> (line 114 is outside
  the \<^verbatim>\<open>try\<close> of \<^verbatim>\<open>do_scan\<close>), the loop of lines 76-77 is left, and the triple
  is not attempted at all: it is in no log, no longer pending, and the worker
  is idle with an empty queue.\<close>

theorem enqueue_dedup_zero_attempts_counterexample:
  "run env1 [Add item_l, Schedule] (init 0 []) = Some (scan_file item_l (init 0 [])) \<and>
   pending ((scan_file item_b ^^ 2) (scan_file item_l (init 0 []))) = {item_l, item_b} \<and>
   run env1 [Next [item_l, item_b], Item] ((scan_file item_b ^^ 2) (scan_file item_l (init 0 [])))
   = Some \<lparr>pending = {}, running = Some 0, wait_time = 0, done_futures = {0},
        next_future = Suc 0, work_queue = [], worker = Idle,
        store = [], attempts = [item_l],
        scans = [(EntryScan ''locked/a.md'' (Some ''a.md'') True, Raised)],
        failures = [OSError]\<rparr> \<and>
   count_list [item_l] item_b = 0"
proof -
  have a: "run env1 [Add item_l, Schedule] (init 0 []) = Some (scan_file item_l (init 0 []))"
    by (simp add: scan_file_def init_def add_pending_def)
  have b: "pending ((scan_file item_b ^^ 2) (scan_file item_l (init 0 []))) = {item_l, item_b}"
    by (simp add: twice_enqueued_behind_locked)
  have ne: "item_l \<noteq> item_b" by (simp add: item_l_def item_b_def)
  have sw: "next_task [item_l, item_b] ((scan_file item_b ^^ 2) (scan_file item_l (init 0 [])))
     = Some \<lparr>pending = {}, running = Some 0, wait_time = 0, done_futures = {},
        next_future = Suc 0, work_queue = [], worker = Draining 0 [item_l, item_b] True,
        store = [], attempts = [], scans = [], failures = []\<rparr>"
    unfolding twice_enqueued_behind_locked using ne by (simp add: next_task_def)
  have it: "next_item env1 \<lparr>pending = {}, running = Some 0, wait_time = 0, done_futures = {},
        next_future = Suc 0, work_queue = [], worker = Draining 0 [item_l, item_b] True,
        store = [], attempts = [], scans = [], failures = []\<rparr>
     = Some \<lparr>pending = {}, running = Some 0, wait_time = 0, done_futures = {0},
        next_future = Suc 0, work_queue = [], worker = Idle,
        store = [], attempts = [item_l],
        scans = [(EntryScan ''locked/a.md'' (Some ''a.md'') True, Raised)],
        failures = [OSError]\<rparr>"
    using route_item_l
    by (simp add: next_item_def scan_file_priv_def do_scan_def env1_def
        set_fingerprint_def fingerprint_or_def item_l_def)
  have c: "run env1 [Next [item_l, item_b], Item]
       ((scan_file item_b ^^ 2) (scan_file item_l (init 0 [])))
     = Some \<lparr>pending = {}, running = Some 0, wait_time = 0, done_futures = {0},
        next_future = Suc 0, work_queue = [], worker = Idle,
        store = [], attempts = [item_l],
        scans = [(EntryScan ''locked/a.md'' (Some ''a.md'') True, Raised)],
        failures = [OSError]\<rparr>"
    by (simp add: sw it)
  have d: "count_list [item_l] item_b = 0" using ne by simp
  from a b c d show ?thesis by blast
qed

text \<open>C4, amended. Let the same triple be enqueued \<open>N\<close> times (\<open>N > 0\<close>) in a
  reachable state. The pending set then holds it exactly as after one enqueue.
  Whatever happens until the swap that drains it, the drained snapshot lists the
  triple exactly once, and the pass calls \<^verbatim>\<open>_scan_file\<close> on the items of the
  snapshot one after the other, each once: after \<open>k\<close> items the log has grown by
  the first \<open>k\<close> items of the snapshot. So in the pass the triple is attempted
  at most once: exactly once as soon as the loop has reached it (in particular
  when the loop has gone through the snapshot), and not at all before. As long
  as no exception has been logged, the loop is still going on with the remaining
  items.\<close>

theorem enqueue_dedup:
  assumes N: "0 < N"
    and reach: "run e evs (init w t) = Some s"
    and later: "run e evs2 ((scan_file x ^^ N) s) = Some s1"
    and still: "x \<in> pending s1"
    and swp: "step e (Next xs) s1 = Some s2" "worker s2 = Draining f xs ne"
    and k: "k \<le> length xs"
    and pass: "run e (replicate k Item) s2 = Some s3"
  shows "pending ((scan_file x ^^ N) s) = insert x (pending s) \<and>
         pending ((scan_file x ^^ N) s) = pending (scan_file x s) \<and>
         count_list xs x = 1 \<and>
         attempts s3 = attempts s2 @ take k xs \<and>
         count_list (drop (length (attempts s2)) (attempts s3)) x
           = (if x \<in> set (take k xs) then 1 else 0) \<and>
         count_list (drop (length (attempts s2)) (attempts s3)) x \<le> 1 \<and>
         (failures s3 = failures s2 \<longrightarrow> worker s3 = Draining f (drop k xs) ne) \<and>
         (k = length xs \<longrightarrow> count_list (drop (length (attempts s2)) (attempts s3)) x = 1)"
proof -
  have p: "pending ((scan_file x ^^ N) s) = insert x (pending s)"
    using N by (simp add: pending_scan_file_funpow)
  have i: "sched_inv s" by (rule inv_run[OF inv_init reach])
  have i1: "sched_inv s1" by (rule inv_run[OF inv_scan_file_funpow[OF i] later])
  from swp(1) have nt: "next_task xs s1 = Some s2" by simp
  have i2: "sched_inv s2" by (rule inv_next[OF i1 nt])
  from next_task_swapD[OF nt swp(2)] have sw: "set xs = pending s1" "distinct xs" by simp_all
  from sw still have c: "count_list xs x = 1" by (simp add: count_list_distinct)
  note ri = run_items[OF i2 swp(2) k pass]
  from ri have a: "attempts s3 = attempts s2 @ take k xs" by simp
  from ri have fl: "failures s3 = failures s2 \<longrightarrow> worker s3 = Draining f (drop k xs) ne"
    by blast
  have dt: "distinct (take k xs)" using sw(2) by simp
  have c': "count_list (drop (length (attempts s2)) (attempts s3)) x
           = (if x \<in> set (take k xs) then 1 else 0)"
    unfolding a using dt by (simp add: count_list_distinct)
  then have c'': "count_list (drop (length (attempts s2)) (attempts s3)) x \<le> 1" by simp
  from a c have full: "k = length xs \<longrightarrow> count_list (drop (length (attempts s2)) (attempts s3)) x = 1"
    by simp
  from p c a c' c'' fl full show ?thesis by (simp add: pending_scan_file)
qed

lemma route_item_a: "route item_a = Some (EntryScan ''posts/a.md'' (Some ''a.md'') False)"
  by (simp add: item_a_def route_def splitext_def rfind_def ENTRY_TYPES_def)

lemma route_item_b: "route item_b = Some (EntryScan ''posts/b.md'' (Some ''b.md'') False)"
  by (simp add: item_b_def route_def splitext_def rfind_def ENTRY_TYPES_def)

lemma twice_enqueued_behind_a:
  "(scan_file item_b ^^ 2) (scan_file item_a (init 0 []))
   = \<lparr>pending = {item_a, item_b}, running = Some 0, wait_time = 0, done_futures = {},
        next_future = Suc 0, work_queue = [ScanPendingTask 0], worker = Idle,
        store = [], attempts = [], scans = [], failures = []\<rparr>"
  by (simp add: numeral_2_eq_2 scan_file_def init_def add_pending_def schedule_priv_def
      handle_free_def submit_def Let_def insert_commute)

theorem enqueue_dedup_witness:
  "run env0 [Add item_a, Schedule] (init 0 []) = Some (scan_file item_a (init 0 [])) \<and>
   pending ((scan_file item_b ^^ 2) (scan_file item_a (init 0 []))) = {item_a, item_b} \<and>
   step env0 (Next [item_a, item_b]) ((scan_file item_b ^^ 2) (scan_file item_a (init 0 [])))
     = Some \<lparr>pending = {}, running = Some 0, wait_time = 0, done_futures = {},
        next_future = Suc 0, work_queue = [], worker = Draining 0 [item_a, item_b] True,
        store = [], attempts = [], scans = [], failures = []\<rparr> \<and>
   run env0 (replicate 2 Item) \<lparr>pending = {}, running = Some 0, wait_time = 0, done_futures = {},
        next_future = Suc 0, work_queue = [], worker = Draining 0 [item_a, item_b] True,
        store = [], attempts = [], scans = [], failures = []\<rparr>
     = Some \<lparr>pending = {}, running = Some 0, wait_time = 0, done_futures = {},
        next_future = Suc 0, work_queue = [], worker = Draining 0 [] True,
        store = [\<lparr>file_path = ''posts/a.md'', fingerprint = ''f1'', file_mtime = 1\<rparr>,
                 \<lparr>file_path = ''posts/b.md'', fingerprint = ''f1'', file_mtime = 1\<rparr>],
        attempts = [item_a, item_b],
        scans = [(EntryScan ''posts/a.md'' (Some ''a.md'') False, Truthy),
                 (EntryScan ''posts/b.md'' (Some ''b.md'') False, Truthy)], failures = []\<rparr> \<and>
   count_list [item_a, item_b] item_b = 1"
proof -
  let ?s1 = "(scan_file item_b ^^ 2) (scan_file item_a (init 0 []))"
  let ?s2 = "\<lparr>pending = {}, running = Some 0, wait_time = 0, done_futures = {},
        next_future = Suc 0, work_queue = [], worker = Draining 0 [item_a, item_b] True,
        store = [], attempts = [], scans = [], failures = []\<rparr>"
  let ?s3 = "\<lparr>pending = {}, running = Some 0, wait_time = 0, done_futures = {},
        next_future = Suc 0, work_queue = [], worker = Draining 0 [] True,
        store = [\<lparr>file_path = ''posts/a.md'', fingerprint = ''f1'', file_mtime = 1\<rparr>,
                 \<lparr>file_path = ''posts/b.md'', fingerprint = ''f1'', file_mtime = 1\<rparr>],
        attempts = [item_a, item_b],
        scans = [(EntryScan ''posts/a.md'' (Some ''a.md'') False, Truthy),
                 (EntryScan ''posts/b.md'' (Some ''b.md'') False, Truthy)], failures = []\<rparr>"
  have ne: "item_a \<noteq> item_b" by (simp add: item_a_def item_b_def)
  have n: "0 < (2::nat)" by simp
  have reach: "run env0 [Add item_a, Schedule] (init 0 []) = Some (scan_file item_a (init 0 []))"
    by (simp add: scan_file_def init_def add_pending_def)
  have later: "run env0 [] ?s1 = Some ?s1" by simp
  have pend: "pending ?s1 = {item_a, item_b}" by (simp add: twice_enqueued_behind_a)
  have still: "item_b \<in> pending ?s1" by (simp add: pend)
  have swp: "step env0 (Next [item_a, item_b]) ?s1 = Some ?s2"
    unfolding twice_enqueued_behind_a using ne by (simp add: next_task_def)
  have w: "worker ?s2 = Draining 0 [item_a, item_b] True" by simp
  have k: "2 \<le> length [item_a, item_b]" by simp
  have it1: "next_item env0 ?s2
     = Some \<lparr>pending = {}, running = Some 0, wait_time = 0, done_futures = {},
        next_future = Suc 0, work_queue = [], worker = Draining 0 [item_b] True,
        store = [\<lparr>file_path = ''posts/a.md'', fingerprint = ''f1'', file_mtime = 1\<rparr>],
        attempts = [item_a],
        scans = [(EntryScan ''posts/a.md'' (Some ''a.md'') False, Truthy)], failures = []\<rparr>"
    using route_item_a
    by (simp add: next_item_def scan_file_priv_def do_scan_def env0_def
        set_fingerprint_def fingerprint_or_def tbl_get_def tbl_create_def item_a_def)
  have it2: "next_item env0 \<lparr>pending = {}, running = Some 0, wait_time = 0, done_futures = {},
        next_future = Suc 0, work_queue = [], worker = Draining 0 [item_b] True,
        store = [\<lparr>file_path = ''posts/a.md'', fingerprint = ''f1'', file_mtime = 1\<rparr>],
        attempts = [item_a],
        scans = [(EntryScan ''posts/a.md'' (Some ''a.md'') False, Truthy)], failures = []\<rparr>
     = Some ?s3"
    using route_item_b
    by (simp add: next_item_def scan_file_priv_def do_scan_def env0_def
        set_fingerprint_def fingerprint_or_def tbl_get_def tbl_create_def item_b_def)
  have pass: "run env0 (replicate 2 Item) ?s2 = Some ?s3"
    by (simp add: numeral_2_eq_2 it1 it2)
  from enqueue_dedup[OF n reach later still swp w k pass] reach pend swp pass ne
  show ?thesis by simp
qed

section \<open>The fixup retry\<close>











section \<open>Items enqueued during a drain pass\<close>

lemma pending_only_swapped:
  assumes "step e ev s = Some s'"
  shows "pending s \<subseteq> pending s' \<or>
         (\<exists>xs f. ev = Next xs \<and> worker s' = Draining f xs (xs \<noteq> []) \<and>
                 set xs = pending s \<and> distinct xs \<and> pending s' = {})"
proof (cases ev)
  case (Add it)
  with assms show ?thesis by (auto simp: add_pending_def)
next
  case Schedule
  with assms show ?thesis by auto
next
  case (Next xs)
  with assms have nt: "next_task xs s = Some s'" by simp
  then have w: "worker s = Idle" by (cases "worker s") (simp_all add: next_task_def)
  from nt w obtain t q where q: "work_queue s = t # q"
    by (cases "work_queue s") (simp_all add: next_task_def)
  show ?thesis
  proof (cases t)
    case SleepTask
    with nt w q have "s' = s\<lparr>work_queue := q\<rparr>" by (simp add: next_task_def)
    then show ?thesis by simp
  next
    case ScheduleTask
    with nt w q have "s' = schedule_priv 0 (s\<lparr>work_queue := q\<rparr>)" by (simp add: next_task_def)
    then show ?thesis by simp
  next
    case (ScanPendingTask n)
    with nt w q have "set xs = pending s \<and> distinct xs"
       "s' = s\<lparr>work_queue := q, pending := {}, worker := Draining n xs (xs \<noteq> [])\<rparr>"
      by (auto simp: next_task_def split: if_splits)
    with Next show ?thesis by simp
  qed
next
  case Item
  with assms have ni: "next_item e s = Some s'" by simp
  then obtain f it rest ne where w: "worker s = Draining f (it # rest) ne"
    by (rule next_item_SomeD)
  obtain s1 x where sp: "scan_file_priv e it s = (s1, x)" by (cases "scan_file_priv e it s")
  have "pending s \<subseteq> pending s1"
  proof -
    obtain p r fx where it: "it = (p, r, fx)" by (cases it) auto
    show ?thesis using sp unfolding it
      by (cases "route (p, r, fx)")
         (auto simp: scan_file_priv_def Let_def pending_scan_file split: if_splits sum.splits)
  qed
  moreover have "pending s' = pending s1"
    using ni w sp by (cases x) (auto simp: next_item_def)
  ultimately show ?thesis by simp
next
  case Finish
  with assms have fi: "finish s = Some s'" by simp
  then obtain f ne where w: "worker s = Draining f [] ne"
    by (cases "worker s") (auto simp: finish_def split: list.splits)
  with fi have "s' = (if ne then submit ScheduleTask s else s)
      \<lparr>worker := Idle, done_futures := insert f (done_futures (if ne then submit ScheduleTask s else s))\<rparr>"
    by (simp add: finish_def Let_def)
  then show ?thesis by (simp add: submit_def)
qed

lemma finish_idle: "worker s = Idle \<Longrightarrow> finish s = None"
  by (simp add: finish_def)

text \<open>What does hold without a further enqueue. A step never removes anything from
  the pending set except the swap, which hands the whole set to a drain pass as
  its snapshot. If a pass with a non-empty snapshot reaches the end of its loop,
  it leaves the catch-up task in the queue; that task submits a new pass; for
  every order of iteration the snapshot of the new pass contains every item that
  was pending during the old one, and the new pass attempts the items of its
  snapshot one after the other.\<close>

theorem no_loss_after_nonempty_pass:
  assumes reach: "run e evs (init w t) = Some s"
    and dr: "worker s = Draining f rest True"
    and x: "x \<in> pending s"
    and pass1: "run e (replicate (length rest) Item @ [Finish]) s = Some s1"
  shows "(\<forall>ev s0 s0'. step e ev s0 = Some s0' \<longrightarrow>
            pending s0 \<subseteq> pending s0' \<or>
            (\<exists>xs f. ev = Next xs \<and> worker s0' = Draining f xs (xs \<noteq> []) \<and>
                    set xs = pending s0 \<and> distinct xs \<and> pending s0' = {})) \<and>
         work_queue s1 = [ScheduleTask] \<and> worker s1 = Idle \<and>
         (\<exists>s2 f'. run e [Next ys] s1 = Some s2 \<and> x \<in> pending s2 \<and>
            worker s2 = Idle \<and> work_queue s2 = [ScanPendingTask f'] \<and>
            (\<forall>xs. set xs = pending s2 \<and> distinct xs \<longrightarrow>
               x \<in> set xs \<and>
               (\<exists>s3. step e (Next xs) s2 = Some s3 \<and> worker s3 = Draining f' xs True \<and>
                  (\<forall>k s4. k \<le> length xs \<and> run e (replicate k Item) s3 = Some s4 \<longrightarrow>
                     attempts s4 = attempts s3 @ take k xs))))"
proof -
  have i: "sched_inv s" by (rule inv_run[OF inv_init reach])
  from pass1 obtain sa where sa: "run e (replicate (length rest) Item) s = Some sa"
      "finish sa = Some s1"
    by (auto simp: run_snoc split: option.splits)
  note ri = run_items[OF i dr le_refl sa(1)]
  from ri have ia: "sched_inv sa" and pa: "pending s \<subseteq> pending sa" by simp_all
  have wa: "worker sa = Draining f [] True"
  proof -
    from ri have "worker sa = Draining f (drop (length rest) rest) True \<or> worker sa = Idle"
      by blast
    then show ?thesis using sa(2) by (auto simp: finish_idle)
  qed
  from finish_draining[OF ia wa] sa(2)
  have s1: "s1 = sa\<lparr>work_queue := [ScheduleTask], worker := Idle,
                   done_futures := insert f (done_futures sa)\<rparr>" by simp
  have i1: "sched_inv s1" by (rule inv_finish[OF ia sa(2)])
  have q1: "work_queue s1 = [ScheduleTask]" "worker s1 = Idle" "pending s1 = pending sa"
    unfolding s1 by simp_all
  let ?n = "next_future s1"
  let ?s2 = "s1\<lparr>work_queue := [ScanPendingTask ?n], running := Some ?n, next_future := Suc ?n\<rparr>"
  have nt: "next_task ys s1 = Some ?s2" by (rule catch_up[OF i1 q1(2) q1(1)])
  have i2: "sched_inv ?s2" by (rule inv_next[OF i1 nt])
  have x2: "x \<in> pending ?s2" using x pa q1(3) by auto
  have pass2: "\<forall>xs. set xs = pending ?s2 \<and> distinct xs \<longrightarrow>
               x \<in> set xs \<and>
               (\<exists>s3. step e (Next xs) ?s2 = Some s3 \<and> worker s3 = Draining ?n xs True \<and>
                  (\<forall>k s4. k \<le> length xs \<and> run e (replicate k Item) s3 = Some s4 \<longrightarrow>
                     attempts s4 = attempts s3 @ take k xs))"
  proof (intro allI impI)
    fix xs assume l: "set xs = pending ?s2 \<and> distinct xs"
    with x2 have xin: "x \<in> set xs" by simp
    then have ne: "xs \<noteq> []" by auto
    let ?s3 = "?s2\<lparr>work_queue := [], pending := {}, worker := Draining ?n xs (xs \<noteq> [])\<rparr>"
    have sw: "next_task xs ?s2 = Some ?s3"
      by (rule swap) (use l q1(2) in simp_all)
    have i3: "sched_inv ?s3" by (rule inv_next[OF i2 sw])
    have w3: "worker ?s3 = Draining ?n xs True" using ne by simp
    have "\<forall>k s4. k \<le> length xs \<and> run e (replicate k Item) ?s3 = Some s4 \<longrightarrow>
                     attempts s4 = attempts ?s3 @ take k xs"
      using run_items[OF i3 w3] by blast
    with sw w3 xin show "x \<in> set xs \<and>
               (\<exists>s3. step e (Next xs) ?s2 = Some s3 \<and> worker s3 = Draining ?n xs True \<and>
                  (\<forall>k s4. k \<le> length xs \<and> run e (replicate k Item) s3 = Some s4 \<longrightarrow>
                     attempts s4 = attempts s3 @ take k xs))"
      by (intro conjI exI[of _ ?s3]) simp_all
  qed
  have r2: "run e [Next ys] s1 = Some ?s2" using nt by simp
  have w2: "worker ?s2 = Idle" "work_queue ?s2 = [ScanPendingTask ?n]" using q1(2) by simp_all
  have ex: "\<exists>s2 f'. run e [Next ys] s1 = Some s2 \<and> x \<in> pending s2 \<and>
            worker s2 = Idle \<and> work_queue s2 = [ScanPendingTask f'] \<and>
            (\<forall>xs. set xs = pending s2 \<and> distinct xs \<longrightarrow>
               x \<in> set xs \<and>
               (\<exists>s3. step e (Next xs) s2 = Some s3 \<and> worker s3 = Draining f' xs True \<and>
                  (\<forall>k s4. k \<le> length xs \<and> run e (replicate k Item) s3 = Some s4 \<longrightarrow>
                     attempts s4 = attempts s3 @ take k xs)))"
    by (rule exI[of _ ?s2], rule exI[of _ ?n]) (use r2 x2 w2 pass2 in blast)
  have mono: "\<forall>ev s0 s0'. step e ev s0 = Some s0' \<longrightarrow>
            pending s0 \<subseteq> pending s0' \<or>
            (\<exists>xs f. ev = Next xs \<and> worker s0' = Draining f xs (xs \<noteq> []) \<and>
                    set xs = pending s0 \<and> distinct xs \<and> pending s0' = {})"
    using pending_only_swapped by blast
  from mono q1(1,2) ex show ?thesis by blast
qed

theorem no_loss_after_nonempty_pass_witness:
  "run env0 [Add item_a, Schedule, Next [item_a], Add item_b, Schedule] (init 0 [])
   = Some \<lparr>pending = {item_b}, running = Some 0, wait_time = 0, done_futures = {},
      next_future = Suc 0, work_queue = [], worker = Draining 0 [item_a] True, store = [],
      attempts = [], scans = [], failures = []\<rparr> \<and>
   run env0 (replicate (length [item_a]) Item @ [Finish])
     \<lparr>pending = {item_b}, running = Some 0, wait_time = 0, done_futures = {},
      next_future = Suc 0, work_queue = [], worker = Draining 0 [item_a] True, store = [],
      attempts = [], scans = [], failures = []\<rparr>
   = Some \<lparr>pending = {item_b}, running = Some 0, wait_time = 0, done_futures = {0},
        next_future = Suc 0, work_queue = [ScheduleTask], worker = Idle,
        store = [\<lparr>file_path = ''posts/a.md'', fingerprint = ''f1'', file_mtime = 1\<rparr>],
        attempts = [item_a],
        scans = [(EntryScan ''posts/a.md'' (Some ''a.md'') False, Truthy)], failures = []\<rparr> \<and>
   run env0 [Next [], Next [item_b], Item]
     \<lparr>pending = {item_b}, running = Some 0, wait_time = 0, done_futures = {0},
        next_future = Suc 0, work_queue = [ScheduleTask], worker = Idle,
        store = [\<lparr>file_path = ''posts/a.md'', fingerprint = ''f1'', file_mtime = 1\<rparr>],
        attempts = [item_a],
        scans = [(EntryScan ''posts/a.md'' (Some ''a.md'') False, Truthy)], failures = []\<rparr>
   = Some \<lparr>pending = {}, running = Some 1, wait_time = 0, done_futures = {0},
        next_future = 2, work_queue = [], worker = Draining 1 [] True,
        store = [\<lparr>file_path = ''posts/a.md'', fingerprint = ''f1'', file_mtime = 1\<rparr>,
                 \<lparr>file_path = ''posts/b.md'', fingerprint = ''f1'', file_mtime = 1\<rparr>],
        attempts = [item_a, item_b],
        scans = [(EntryScan ''posts/a.md'' (Some ''a.md'') False, Truthy),
                 (EntryScan ''posts/b.md'' (Some ''b.md'') False, Truthy)], failures = []\<rparr>"
proof -
  let ?s = "\<lparr>pending = {item_b}, running = Some 0, wait_time = 0, done_futures = {},
      next_future = Suc 0, work_queue = [], worker = Draining 0 [item_a] True, store = [],
      attempts = [], scans = [], failures = []\<rparr>"
  let ?s1 = "\<lparr>pending = {item_b}, running = Some 0, wait_time = 0, done_futures = {0},
        next_future = Suc 0, work_queue = [ScheduleTask], worker = Idle,
        store = [\<lparr>file_path = ''posts/a.md'', fingerprint = ''f1'', file_mtime = 1\<rparr>],
        attempts = [item_a],
        scans = [(EntryScan ''posts/a.md'' (Some ''a.md'') False, Truthy)], failures = []\<rparr>"
  have reach: "run env0 [Add item_a, Schedule, Next [item_a], Add item_b, Schedule] (init 0 []) = Some ?s"
    by (simp add: init_def add_pending_def schedule_priv_def handle_free_def submit_def
      next_task_def Let_def)
  have dr: "worker ?s = Draining 0 [item_a] True" by simp
  have x: "item_b \<in> pending ?s" by simp
  have pass1: "run env0 (replicate (length [item_a]) Item @ [Finish]) ?s = Some ?s1"
    using route_item_a
    by (simp add: next_item_def scan_file_priv_def do_scan_def env0_def finish_def submit_def
      set_fingerprint_def fingerprint_or_def tbl_get_def tbl_create_def item_a_def)
  have pass2: "run env0 [Next [], Next [item_b], Item] ?s1
   = Some \<lparr>pending = {}, running = Some 1, wait_time = 0, done_futures = {0},
        next_future = 2, work_queue = [], worker = Draining 1 [] True,
        store = [\<lparr>file_path = ''posts/a.md'', fingerprint = ''f1'', file_mtime = 1\<rparr>,
                 \<lparr>file_path = ''posts/b.md'', fingerprint = ''f1'', file_mtime = 1\<rparr>],
        attempts = [item_a, item_b],
        scans = [(EntryScan ''posts/a.md'' (Some ''a.md'') False, Truthy),
                 (EntryScan ''posts/b.md'' (Some ''b.md'') False, Truthy)], failures = []\<rparr>"
    using route_item_b
    by (simp add: next_task_def schedule_priv_def handle_free_def submit_def Let_def
      next_item_def scan_file_priv_def do_scan_def env0_def
      set_fingerprint_def fingerprint_or_def tbl_get_def tbl_create_def item_a_def item_b_def)
  from no_loss_after_nonempty_pass[OF reach dr x pass1] reach pass1 pass2
  show ?thesis by blast
qed

lemma run_first_pass:
  "run env0 [Add item_a, Schedule, Next [item_a], Item, Finish] (init 0 [])
   = Some \<lparr>pending = {}, running = Some 0, wait_time = 0, done_futures = {0},
        next_future = Suc 0, work_queue = [ScheduleTask], worker = Idle,
        store = [\<lparr>file_path = ''posts/a.md'', fingerprint = ''f1'', file_mtime = 1\<rparr>],
        attempts = [item_a],
        scans = [(EntryScan ''posts/a.md'' (Some ''a.md'') False, Truthy)], failures = []\<rparr>"
  using route_item_a
  by (simp add: init_def add_pending_def schedule_priv_def handle_free_def submit_def Let_def
      next_task_def next_item_def scan_file_priv_def do_scan_def env0_def finish_def
      set_fingerprint_def fingerprint_or_def tbl_get_def tbl_create_def item_a_def)

text \<open>C1. An item can be stranded. After a pass that handled one item, the
  catch-up pass swaps an empty pending set. While it is in progress (its future
  is not done yet) another thread enqueues a second item: \<^verbatim>\<open>_schedule\<close> sees a
  handle that is not done and submits nothing. The pass then ends; as its
  snapshot was empty (line 81) it schedules no catch-up. The item is pending,
  the worker is idle, the queue is empty: by \<open>quiescent_stuck\<close> no worker step
  is possible, and the item is not handled before some later enqueue.\<close>

theorem lost_wakeup:
  "run env0 ([Add item_a, Schedule, Next [item_a], Item, Finish] @ [Next [], Next []]) (init 0 [])
   = Some \<lparr>pending = {}, running = Some 1, wait_time = 0, done_futures = {0},
        next_future = 2, work_queue = [], worker = Draining 1 [] False,
        store = [\<lparr>file_path = ''posts/a.md'', fingerprint = ''f1'', file_mtime = 1\<rparr>],
        attempts = [item_a],
        scans = [(EntryScan ''posts/a.md'' (Some ''a.md'') False, Truthy)], failures = []\<rparr> \<and>
   run env0 [Add item_b, Schedule, Finish]
     \<lparr>pending = {}, running = Some 1, wait_time = 0, done_futures = {0},
        next_future = 2, work_queue = [], worker = Draining 1 [] False,
        store = [\<lparr>file_path = ''posts/a.md'', fingerprint = ''f1'', file_mtime = 1\<rparr>],
        attempts = [item_a],
        scans = [(EntryScan ''posts/a.md'' (Some ''a.md'') False, Truthy)], failures = []\<rparr>
   = Some \<lparr>pending = {item_b}, running = Some 1, wait_time = 0, done_futures = {0, 1},
        next_future = 2, work_queue = [], worker = Idle,
        store = [\<lparr>file_path = ''posts/a.md'', fingerprint = ''f1'', file_mtime = 1\<rparr>],
        attempts = [item_a],
        scans = [(EntryScan ''posts/a.md'' (Some ''a.md'') False, Truthy)], failures = []\<rparr> \<and>
   item_b \<notin> set [item_a]"
proof -
  have a: "run env0 ([Add item_a, Schedule, Next [item_a], Item, Finish] @ [Next [], Next []]) (init 0 [])
   = Some \<lparr>pending = {}, running = Some 1, wait_time = 0, done_futures = {0},
        next_future = 2, work_queue = [], worker = Draining 1 [] False,
        store = [\<lparr>file_path = ''posts/a.md'', fingerprint = ''f1'', file_mtime = 1\<rparr>],
        attempts = [item_a],
        scans = [(EntryScan ''posts/a.md'' (Some ''a.md'') False, Truthy)], failures = []\<rparr>"
    unfolding run_append run_first_pass
    by (simp add: next_task_def schedule_priv_def handle_free_def submit_def Let_def)
  have b: "run env0 [Add item_b, Schedule, Finish]
     \<lparr>pending = {}, running = Some 1, wait_time = 0, done_futures = {0},
        next_future = 2, work_queue = [], worker = Draining 1 [] False,
        store = [\<lparr>file_path = ''posts/a.md'', fingerprint = ''f1'', file_mtime = 1\<rparr>],
        attempts = [item_a],
        scans = [(EntryScan ''posts/a.md'' (Some ''a.md'') False, Truthy)], failures = []\<rparr>
   = Some \<lparr>pending = {item_b}, running = Some 1, wait_time = 0, done_futures = {0, 1},
        next_future = 2, work_queue = [], worker = Idle,
        store = [\<lparr>file_path = ''posts/a.md'', fingerprint = ''f1'', file_mtime = 1\<rparr>],
        attempts = [item_a],
        scans = [(EntryScan ''posts/a.md'' (Some ''a.md'') False, Truthy)], failures = []\<rparr>"
    by (simp add: add_pending_def schedule_priv_def handle_free_def finish_def insert_commute)
  have c: "item_b \<notin> set [item_a]" by (simp add: item_a_def item_b_def)
  from a b c show ?thesis by blast
qed

section \<open>An unchanged file handled twice\<close>

text \<open>The same unchanged file handled a second time: the fingerprint update of the
  second pass raises, the pass ends with the exception in the log, and the row
  is as before.\<close>

lemma unchanged_file_twice:
  "run env0 ([Add item_a, Schedule, Next [item_a], Item, Finish]
             @ [Add item_a, Schedule, Next [], Next [item_a], Item]) (init 0 [])
   = Some \<lparr>pending = {}, running = Some 1, wait_time = 0, done_futures = {0, 1},
        next_future = 2, work_queue = [], worker = Idle,
        store = [\<lparr>file_path = ''posts/a.md'', fingerprint = ''f1'', file_mtime = 1\<rparr>],
        attempts = [item_a, item_a],
        scans = [(EntryScan ''posts/a.md'' (Some ''a.md'') False, Truthy),
                 (EntryScan ''posts/a.md'' (Some ''a.md'') False, Truthy)],
        failures = [CacheIndexError]\<rparr>"
  unfolding run_append run_first_pass
  using route_item_a
  by (simp add: add_pending_def schedule_priv_def handle_free_def submit_def Let_def
      next_task_def next_item_def scan_file_priv_def do_scan_def env0_def
      set_fingerprint_def fingerprint_or_def tbl_get_def tbl_create_def item_a_def
      insert_commute)

end
